theory Spec2Isabelle
  imports Main "HOL-Library.Word"
begin

section \<open>Outcomes of a call\<close>

text \<open>
  The C++ sources signal failure by exceptions.  Each \<^verbatim>\<open>throw\<close> site is mapped to one
  error value:
  \<^item> \<open>PoolExhausted\<close>: \<^verbatim>\<open>out_of_range("No more keys available")\<close> in \<^verbatim>\<open>KeyPool::pop\<close> and
    \<^verbatim>\<open>runtime_error("KeyPool is empty. No available keys.")\<close> in both \<^verbatim>\<open>insert\<close>s;
  \<^item> \<open>KeyNotFound\<close>: \<^verbatim>\<open>out_of_range\<close> of \<^verbatim>\<open>KeyArrayBase::remove\<close> and \<^verbatim>\<open>KeyArrayBase::at\<close>;
  \<^item> \<open>InvalidKey\<close>: \<^verbatim>\<open>out_of_range\<close> of the range checks of \<^verbatim>\<open>KeyArray::remove\<close> and
    \<^verbatim>\<open>KeyArray::at\<close>, and \<^verbatim>\<open>invalid_argument\<close> of \<^verbatim>\<open>KeyArray::swap\<close>;
  \<^item> \<open>ResizeNotReady\<close>: \<^verbatim>\<open>runtime_error\<close> of \<^verbatim>\<open>KeyArray::switchToResizedData\<close>;
  \<^item> \<open>IOFailure\<close>: \<^verbatim>\<open>runtime_error("Unable to open file ...")\<close>;
  \<^item> \<open>LengthError\<close>: \<^verbatim>\<open>std::length_error\<close> of a \<^verbatim>\<open>std::vector\<close> asked for a negative size
    (the \<^verbatim>\<open>int\<close> converts to a \<^verbatim>\<open>size_t\<close> beyond \<^verbatim>\<open>max_size()\<close>).

  A call either returns a result and the state it leaves, or throws and leaves the state
  it had reached at the \<^verbatim>\<open>throw\<close>, or has undefined behaviour (\<open>Undefined\<close>: an unchecked
  \<^verbatim>\<open>operator[]\<close> out of range, or an overflow of a signed \<^verbatim>\<open>int\<close>), or does not return.
\<close>

datatype error = PoolExhausted | KeyNotFound | InvalidKey | ResizeNotReady | IOFailure | LengthError

datatype ('r, 's) outcome = Return 'r 's | Throw error 's | Undefined | Diverges

fun and_then :: "('r, 's) outcome \<Rightarrow> ('r \<Rightarrow> 's \<Rightarrow> ('q, 's) outcome) \<Rightarrow> ('q, 's) outcome" where
  "and_then (Return r s) f = f r s"
| "and_then (Throw e s) f = Throw e s"
| "and_then Undefined f = Undefined"
| "and_then Diverges f = Diverges"

subsection \<open>The type \<^verbatim>\<open>int\<close>\<close>

text \<open>
  An \<^verbatim>\<open>int\<close> has 32 bits.  Its values are the integers from \<open>INT_MIN\<close> to \<open>INT_MAX\<close>, and an
  arithmetic expression whose value leaves that range has undefined behaviour.  In the members
  of \<^verbatim>\<open>KeyArray\<close>, where the offset and the fields a file supplies enter the arithmetic, the
  value of every such expression is tested with \<open>in_int\<close>, and the call is \<open>Undefined\<close> when the
  test fails.  What a build then does (wrap around, trap) is not modelled: \<open>Undefined\<close> stands
  for all of it, and a theorem about a call that returns or throws holds of every build.
  A \<^verbatim>\<open>size_t\<close> has 64 bits; \<^verbatim>\<open>static_cast<int>\<close> of a size is \<open>int_of_size\<close>.
  A value-initialised \<^verbatim>\<open>T()\<close> is \<open>default\<close>.
\<close>

definition INT_MIN :: int where
  "INT_MIN = - 2147483648"

definition INT_MAX :: int where
  "INT_MAX = 2147483647"

definition in_int :: "int \<Rightarrow> bool" where
  "in_int i \<longleftrightarrow> INT_MIN \<le> i \<and> i \<le> INT_MAX"

definition int_of_size :: "nat \<Rightarrow> int" where
  \<comment> \<open>\<^verbatim>\<open>static_cast<int>(n)\<close>: the value modulo \<open>2^32\<close>, in the range of \<^verbatim>\<open>int\<close>\<close>
  "int_of_size n =
     (let m = int n mod 4294967296 in if m \<le> INT_MAX then m else m - 4294967296)"

instantiation int :: default
begin
definition default_int :: int where "default_int = 0"
instance ..
end

instantiation list :: (type) default
begin
definition default_list :: "'a list" where "default_list = []"
instance ..
end

subsection \<open>Vectors\<close>

definition in_bounds :: "'a list \<Rightarrow> int \<Rightarrow> bool" where
  "in_bounds xs i \<longleftrightarrow> 0 \<le> i \<and> i < int (length xs)"

definition resize :: "int \<Rightarrow> 'a \<Rightarrow> 'a list \<Rightarrow> 'a list" where
  \<comment> \<open>\<^verbatim>\<open>xs.resize(n, d)\<close> for \<open>0 \<le> n\<close>: truncate, or pad with \<open>d\<close>.\<close>
  "resize n d xs = take (nat n) xs @ replicate (nat n - length xs) d"

section \<open>KeyPool\<close>

record KeyPool =
  nextKey :: int
  maxKey :: int
  pool :: "int list"  \<comment> \<open>\<^verbatim>\<open>std::stack<int>\<close>, top first\<close>

definition KeyPool_max :: "int \<Rightarrow> KeyPool" where
  \<comment> \<open>\<^verbatim>\<open>explicit KeyPool(int maxKey = 99)\<close>\<close>
  "KeyPool_max maxInclusive = \<lparr>nextKey = 0, maxKey = maxInclusive, pool = []\<rparr>"

definition KeyPool_default :: KeyPool where
  "KeyPool_default = KeyPool_max 99"

definition KeyPool_range :: "int \<Rightarrow> int \<Rightarrow> KeyPool" where
  \<comment> \<open>\<^verbatim>\<open>KeyPool(int value1, int value2)\<close>\<close>
  "KeyPool_range value1 value2 =
     (if value1 > value2 then \<lparr>nextKey = value2, maxKey = value1, pool = []\<rparr>
      else \<lparr>nextKey = value1, maxKey = value2, pool = []\<rparr>)"

definition KeyPool_pop :: "KeyPool \<Rightarrow> (int, KeyPool) outcome" where
  "KeyPool_pop p =
     (case pool p of
        v # rest \<Rightarrow> Return v (p\<lparr>pool := rest\<rparr>)
      | [] \<Rightarrow>
          if nextKey p > maxKey p then Throw PoolExhausted p
          else Return (nextKey p) (p\<lparr>nextKey := nextKey p + 1\<rparr>))"

definition KeyPool_push :: "KeyPool \<Rightarrow> int \<Rightarrow> KeyPool" where
  "KeyPool_push p v =
     (if v \<ge> nextKey p \<and> v \<le> maxKey p then p\<lparr>pool := v # pool p\<rparr> else p)"

definition KeyPool_empty :: "KeyPool \<Rightarrow> bool" where
  "KeyPool_empty p \<longleftrightarrow> pool p = [] \<and> nextKey p > maxKey p"

definition KeyPool_increaseMaxValue :: "KeyPool \<Rightarrow> KeyPool" where
  "KeyPool_increaseMaxValue p = p\<lparr>maxKey := maxKey p * 2\<rparr>"

definition KeyPool_reset :: "KeyPool \<Rightarrow> int \<Rightarrow> int \<Rightarrow> KeyPool" where
  "KeyPool_reset p newStart newEnd =
     (if newStart > newEnd then p\<lparr>pool := [], nextKey := newEnd, maxKey := newStart\<rparr>
      else p\<lparr>pool := [], nextKey := newStart, maxKey := newEnd\<rparr>)"

definition KeyPool_getCurrentValue :: "KeyPool \<Rightarrow> int" where
  "KeyPool_getCurrentValue p = nextKey p"

definition KeyPool_getMaxValue :: "KeyPool \<Rightarrow> int" where
  "KeyPool_getMaxValue p = maxKey p"

section \<open>KeyArrayBase\<close>

text \<open>
  The member \<^verbatim>\<open>pool\<close> of \<^verbatim>\<open>KeyArrayBase\<close> is the field \<open>kpool\<close> here (the name \<open>pool\<close> is the
  stack inside a \<open>KeyPool\<close>).  The members are stated on the record scheme, so that the derived
  class \<open>KeyArray\<close> inherits them.

  \<^verbatim>\<open>hasKey\<close> is virtual, and \<^verbatim>\<open>KeyArrayBase::remove\<close> and \<^verbatim>\<open>KeyArrayBase::at\<close> call it unqualified:
  the call goes to the \<^verbatim>\<open>hasKey\<close> of the class of the object.  These two members therefore take
  that \<^verbatim>\<open>hasKey\<close> as their first argument: \<open>KeyArrayBase_hasKey\<close> on a \<^verbatim>\<open>KeyArrayBase\<close> object,
  \<open>KeyArray_hasKey\<close> on a \<^verbatim>\<open>KeyArray\<close> object.

  The arithmetic of \<^verbatim>\<open>KeyPool\<close> and \<^verbatim>\<open>KeyArrayBase\<close> is \<^verbatim>\<open>nextKey++\<close>, \<^verbatim>\<open>lastKey + 1\<close>, the
  counter of the loop of \<^verbatim>\<open>contains\<close> and \<^verbatim>\<open>limitKey - 1\<close>; it is written without a test.  On
  every store a constructor, a public call or a load of \<^verbatim>\<open>KeyArray\<close> has left, \<open>lastKey + 1\<close> is
  an \<^verbatim>\<open>int\<close> and \<^verbatim>\<open>data\<close> has no more than \<open>INT_MAX\<close> slots (\<open>reachable_int_ranged\<close> below), so
  that an insert whose \<^verbatim>\<open>nextKey++\<close> leaves the range of \<^verbatim>\<open>int\<close> is \<open>Undefined\<close> by its index
  (\<open>frontier_overflow_undefined\<close>); \<open>KeyArray_make\<close>, which every constructor of \<^verbatim>\<open>KeyArray\<close>
  goes through, tests \<^verbatim>\<open>limitKey - 1\<close> itself.
\<close>

record 'a KeyArrayBase =
  lastKey :: int
  elementCount :: "64 word"
  data :: "'a list"
  valid :: "bool list"
  kpool :: KeyPool

definition KeyArrayBase_init :: "int \<Rightarrow> error + ('a::default) KeyArrayBase" where
  \<comment> \<open>\<^verbatim>\<open>KeyArrayBase(int limitKey = 100)\<close>\<close>
  "KeyArrayBase_init limitKey =
     (if limitKey < 0 then Inl LengthError
      else Inr \<lparr>lastKey = limitKey - 1, elementCount = 0,
                data = resize limitKey default [], valid = resize limitKey False [],
                kpool = KeyPool_range 0 (limitKey - 1)\<rparr>)"

definition KeyArrayBase_insert ::
  "('a, 'z) KeyArrayBase_scheme \<Rightarrow> 'a \<Rightarrow> (int, ('a, 'z) KeyArrayBase_scheme) outcome" where
  "KeyArrayBase_insert s v =
     (if KeyPool_empty (kpool s) then Throw PoolExhausted s
      else
        (case KeyPool_pop (kpool s) of
           Return key p \<Rightarrow>
             if in_bounds (data s) key \<and> in_bounds (valid s) key
             then Return key (s\<lparr>kpool := p, data := (data s)[nat key := v],
                                 valid := (valid s)[nat key := True],
                                 elementCount := elementCount s + 1\<rparr>)
             else Undefined
         | Throw e p \<Rightarrow> Throw e (s\<lparr>kpool := p\<rparr>)
         | Undefined \<Rightarrow> Undefined
         | Diverges \<Rightarrow> Diverges))"

definition KeyArrayBase_hasKey ::
  "('a, 'z) KeyArrayBase_scheme \<Rightarrow> int \<Rightarrow> (bool, ('a, 'z) KeyArrayBase_scheme) outcome" where
  "KeyArrayBase_hasKey s key =
     (if key \<ge> 0 \<and> key \<le> lastKey s
      then (if in_bounds (valid s) key then Return (valid s ! nat key) s else Undefined)
      else Return False s)"

type_synonym ('a, 'z) hasKey_member =
  "('a, 'z) KeyArrayBase_scheme \<Rightarrow> int \<Rightarrow> (bool, ('a, 'z) KeyArrayBase_scheme) outcome"

definition KeyArrayBase_remove ::
  "('a, 'z) hasKey_member \<Rightarrow> ('a, 'z) KeyArrayBase_scheme \<Rightarrow> int \<Rightarrow>
     (unit, ('a, 'z) KeyArrayBase_scheme) outcome" where
  \<comment> \<open>\<open>hasKey\<close>: the virtual \<^verbatim>\<open>hasKey\<close> of the object\<close>
  "KeyArrayBase_remove hasKey s key =
     and_then (hasKey s key) (\<lambda>present s.
       if \<not> present then Throw KeyNotFound s
       else if in_bounds (valid s) key
       then Return () (s\<lparr>valid := (valid s)[nat key := False],
                          elementCount := elementCount s - 1,
                          kpool := KeyPool_push (kpool s) key\<rparr>)
       else Undefined)"

fun contains_loop :: "('a, 'z) KeyArrayBase_scheme \<Rightarrow> 'a \<Rightarrow> int list \<Rightarrow> bool option" where
  "contains_loop s v [] = Some False"
| "contains_loop s v (i # rest) =
     (if \<not> in_bounds (valid s) i then None
      else if valid s ! nat i then
        (if \<not> in_bounds (data s) i then None
         else if data s ! nat i = v then Some True
         else contains_loop s v rest)
      else contains_loop s v rest)"

definition KeyArrayBase_contains ::
  "('a, 'z) KeyArrayBase_scheme \<Rightarrow> 'a \<Rightarrow> (bool, ('a, 'z) KeyArrayBase_scheme) outcome" where
  \<comment> \<open>\<^verbatim>\<open>for (int i = 0; i <= lastKey; ++i)\<close>\<close>
  "KeyArrayBase_contains s v =
     (case contains_loop s v [0..lastKey s] of None \<Rightarrow> Undefined | Some b \<Rightarrow> Return b s)"

definition KeyArrayBase_at ::
  "('a, 'z) hasKey_member \<Rightarrow> ('a, 'z) KeyArrayBase_scheme \<Rightarrow> int \<Rightarrow>
     ('a, ('a, 'z) KeyArrayBase_scheme) outcome" where
  \<comment> \<open>\<open>hasKey\<close>: the virtual \<^verbatim>\<open>hasKey\<close> of the object\<close>
  "KeyArrayBase_at hasKey s key =
     and_then (hasKey s key) (\<lambda>present s.
       if \<not> present then Throw KeyNotFound s
       else if in_bounds (data s) key then Return (data s ! nat key) s
       else Undefined)"

definition KeyArrayBase_at_assign ::
  "('a, 'z) hasKey_member \<Rightarrow> ('a, 'z) KeyArrayBase_scheme \<Rightarrow> int \<Rightarrow> 'a \<Rightarrow>
     (unit, ('a, 'z) KeyArrayBase_scheme) outcome" where
  \<comment> \<open>\<^verbatim>\<open>arr.at(key) = v\<close>: assignment through the reference \<^verbatim>\<open>T& at(int)\<close> returns\<close>
  "KeyArrayBase_at_assign hasKey s key v =
     and_then (KeyArrayBase_at hasKey s key)
       (\<lambda>_ s. Return () (s\<lparr>data := (data s)[nat key := v]\<rparr>))"

definition KeyArrayBase_size :: "('a, 'z) KeyArrayBase_scheme \<Rightarrow> nat" where
  "KeyArrayBase_size s = unat (elementCount s)"

definition KeyArrayBase_empty :: "('a, 'z) KeyArrayBase_scheme \<Rightarrow> bool" where
  "KeyArrayBase_empty s \<longleftrightarrow> elementCount s = 0"

definition KeyArrayBase_clear ::
  "('a::default, 'z) KeyArrayBase_scheme \<Rightarrow> (unit, ('a, 'z) KeyArrayBase_scheme) outcome" where
  "KeyArrayBase_clear s =
     (if lastKey s + 1 < 0 then Throw LengthError s
      else Return () (s\<lparr>data := resize (lastKey s + 1) default [],
                         valid := resize (lastKey s + 1) False [],
                         elementCount := 0,
                         kpool := KeyPool_range 0 (lastKey s)\<rparr>))"

section \<open>KeyArray\<close>

record 'a KeyArray = "'a KeyArrayBase" +
  offset :: int
  name :: string
  resizingEnabled :: bool
  copyInProgress :: bool
  copyIndex :: int
  newData :: "'a list"
  newValid :: "bool list"
  newPool :: KeyPool
  queueEnabled :: bool
  overflowQueue :: "'a list"  \<comment> \<open>\<^verbatim>\<open>std::queue<T>\<close>, front first\<close>

text \<open>
  A constructor yields \<open>None\<close> when an argument is not an \<^verbatim>\<open>int\<close> or its arithmetic overflows,
  \<open>Some (Inl e)\<close> when it throws \<open>e\<close>, and \<open>Some (Inr s)\<close> when it constructs \<open>s\<close>.
\<close>

definition KeyArray_make :: "int \<Rightarrow> int \<Rightarrow> string \<Rightarrow> (error + ('a::default) KeyArray) option" where
  \<comment> \<open>the base constructor \<^verbatim>\<open>KeyArrayBase<T>(limitKey)\<close>, then the member initialisers\<close>
  "KeyArray_make limitKey off nm =
     (if \<not> (in_int limitKey \<and> in_int off \<and> in_int (limitKey - 1)) then None
      else if limitKey < 0 then Some (Inl LengthError)
      else Some (Inr \<lparr>lastKey = limitKey - 1, elementCount = 0,
                data = resize limitKey default [], valid = resize limitKey False [],
                kpool = KeyPool_range 0 (limitKey - 1),
                offset = off, name = nm,
                resizingEnabled = False, copyInProgress = False, copyIndex = 0,
                newData = [], newValid = [], newPool = KeyPool_default,
                queueEnabled = False, overflowQueue = []\<rparr>))"

definition KeyArray_named :: "string \<Rightarrow> (error + ('a::default) KeyArray) option" where
  \<comment> \<open>\<^verbatim>\<open>KeyArray(const std::string& name = "")\<close>\<close>
  "KeyArray_named nm = KeyArray_make 100 0 nm"

definition KeyArray_limit :: "int \<Rightarrow> string \<Rightarrow> (error + ('a::default) KeyArray) option" where
  \<comment> \<open>\<^verbatim>\<open>KeyArray(int limitKey, const std::string& name = "")\<close>\<close>
  "KeyArray_limit limitKey nm = KeyArray_make limitKey 0 nm"

definition KeyArray_range :: "int \<Rightarrow> int \<Rightarrow> string \<Rightarrow> (error + ('a::default) KeyArray) option" where
  \<comment> \<open>\<^verbatim>\<open>KeyArray(int a, int b, const std::string& name = "")\<close>\<close>
  "KeyArray_range a b nm =
     (if \<not> (in_int a \<and> in_int b \<and> in_int (max a b - min a b)) then None
      else KeyArray_make (max a b - min a b) (min a b) nm)"

subsection \<open>Dynamic resizing\<close>

definition prepare_shadow :: "('a::default) KeyArray \<Rightarrow> (unit, 'a KeyArray) outcome" where
  \<comment> \<open>the block from \<^verbatim>\<open>int currentSize = this->lastKey + 1 - offset;\<close> to \<^verbatim>\<open>newPool = KeyPool(...);\<close>,
      which \<^verbatim>\<open>enableDynamicResizing\<close> and \<^verbatim>\<open>switchToResizedData\<close> both have\<close>
  "prepare_shadow s =
     (let currentSize = lastKey s + 1 - offset s;
          newLastKey = offset s + currentSize * 2 - 1
      in if \<not> (in_int (lastKey s + 1) \<and> in_int currentSize \<and> in_int (currentSize * 2) \<and>
                in_int (offset s + currentSize * 2) \<and> in_int newLastKey \<and> in_int (newLastKey + 1))
         then Undefined
         else if newLastKey + 1 < 0 then Throw LengthError s
         else if \<not> in_int (newLastKey - offset s) then Undefined
         else Return () (s\<lparr>newData := resize (newLastKey + 1) default (newData s),
                           newValid := resize (newLastKey + 1) False (newValid s),
                           newPool := KeyPool_range (lastKey s + 1 - offset s)
                                        (newLastKey - offset s)\<rparr>))"

definition KeyArray_enableDynamicResizing ::
  "('a::default) KeyArray \<Rightarrow> (unit, 'a KeyArray) outcome" where
  "KeyArray_enableDynamicResizing s =
     (if resizingEnabled s then Return () s
      else
        let s1 = s\<lparr>resizingEnabled := True\<rparr> in
        if copyIndex s1 = offset s1 then
          and_then (prepare_shadow s1) (\<lambda>_ s2. Return () (s2\<lparr>copyInProgress := True\<rparr>))
        else Return () (s1\<lparr>copyInProgress := True\<rparr>))"

definition KeyArray_disableDynamicResizing ::
  "'a KeyArray \<Rightarrow> bool \<Rightarrow> (unit, 'a KeyArray) outcome" where
  "KeyArray_disableDynamicResizing s purgeData =
     (let s1 = s\<lparr>resizingEnabled := False\<rparr> in
      if purgeData
      then Return () (s1\<lparr>newData := [], newValid := [], newPool := KeyPool_default,
                          copyInProgress := False, copyIndex := 0\<rparr>)
      else Return () s1)"

definition KeyArray_isDynamicResizingEnabled :: "'a KeyArray \<Rightarrow> bool" where
  "KeyArray_isDynamicResizingEnabled s = resizingEnabled s"

definition KeyArray_continueCopyStep :: "'a KeyArray \<Rightarrow> (unit, 'a KeyArray) outcome" where
  "KeyArray_continueCopyStep s =
     (if \<not> resizingEnabled s \<or> \<not> copyInProgress s then Return () s
      else
        and_then
          (if copyIndex s \<le> lastKey s then
             (if \<not> in_bounds (valid s) (copyIndex s) then Undefined
              else if valid s ! nat (copyIndex s) then
                (if in_bounds (data s) (copyIndex s) \<and> in_bounds (newData s) (copyIndex s)
                    \<and> in_bounds (newValid s) (copyIndex s) \<and> in_int (copyIndex s + 1)
                 then Return ()
                        (s\<lparr>newData := (newData s)[nat (copyIndex s) := data s ! nat (copyIndex s)],
                           newValid := (newValid s)[nat (copyIndex s) := True],
                           copyIndex := copyIndex s + 1\<rparr>)
                 else Undefined)
              else if in_int (copyIndex s + 1) then Return () (s\<lparr>copyIndex := copyIndex s + 1\<rparr>)
              else Undefined)
           else Return () s)
          (\<lambda>_ s1. if copyIndex s1 > lastKey s1 then Return () (s1\<lparr>copyInProgress := False\<rparr>)
                   else Return () s1))"

definition KeyArray_switchToResizedData ::
  "('a::default) KeyArray \<Rightarrow> (unit, 'a KeyArray) outcome" where
  "KeyArray_switchToResizedData s =
     (if \<not> resizingEnabled s \<or> copyInProgress s then Throw ResizeNotReady s
      else
        let s1 = s\<lparr>data := newData s, valid := newValid s, kpool := newPool s\<rparr> in
        if \<not> in_int (int_of_size (length (data s1)) - 1) then Undefined
        else
          let s2 = s1\<lparr>lastKey := int_of_size (length (data s1)) - 1\<rparr>;
              s3 = s2\<lparr>newData := [], newValid := [], newPool := KeyPool_default, copyIndex := 0\<rparr>
          in if resizingEnabled s3 then
               and_then (prepare_shadow s3)
                 (\<lambda>_ s4. Return () (s4\<lparr>copyInProgress := True, copyIndex := 0\<rparr>))
             else Return () s3)"

partial_function (option) completeCopy :: "'a KeyArray \<Rightarrow> (unit, 'a KeyArray) outcome option" where
  \<comment> \<open>\<^verbatim>\<open>while (copyInProgress) { continueCopyStep(); }\<close>; \<open>None\<close> when the loop runs forever\<close>
  "completeCopy s =
     (if copyInProgress s then
        (case KeyArray_continueCopyStep s of
           Return _ s1 \<Rightarrow> completeCopy s1
         | Throw e s1 \<Rightarrow> Some (Throw e s1)
         | Undefined \<Rightarrow> Some Undefined
         | Diverges \<Rightarrow> Some Diverges)
      else Some (Return () s))"

declare completeCopy.simps [code]

subsection \<open>Insertion, removal, lookup\<close>

definition mirror_insert :: "'a KeyArray \<Rightarrow> int \<Rightarrow> 'a \<Rightarrow> (unit, 'a KeyArray) outcome" where
  \<comment> \<open>the block \<^verbatim>\<open>if (resizingEnabled) { ... }\<close> of \<^verbatim>\<open>KeyArray::insert\<close>: the value goes into the shadow
      as well, and one step of the migration follows\<close>
  "mirror_insert s actualKey v =
     (if resizingEnabled s then
        (if in_bounds (newData s) actualKey \<and> in_bounds (newValid s) actualKey then
           let s1 = s\<lparr>newData := (newData s)[nat actualKey := v],
                      newValid := (newValid s)[nat actualKey := True]\<rparr>
           in if copyInProgress s1 then KeyArray_continueCopyStep s1 else Return () s1
         else Undefined)
      else Return () s)"

definition insert_store :: "'a KeyArray \<Rightarrow> 'a \<Rightarrow> (int, 'a KeyArray) outcome" where
  \<comment> \<open>\<^verbatim>\<open>KeyArray::insert\<close> from \<^verbatim>\<open>int actualKey = KeyArrayBase<T>::insert(value);\<close> on\<close>
  "insert_store s v =
     and_then (KeyArrayBase_insert s v) (\<lambda>actualKey s1.
       and_then (mirror_insert s1 actualKey v) (\<lambda>_ s2.
         if in_int (actualKey + offset s2) then Return (actualKey + offset s2) s2
         else Undefined))"

definition insert_resized :: "('a::default) KeyArray \<Rightarrow> 'a \<Rightarrow> (int, 'a KeyArray) outcome" where
  \<comment> \<open>the branch \<^verbatim>\<open>if (resizingEnabled)\<close> of an exhausted \<^verbatim>\<open>KeyArray::insert\<close>, and what follows it\<close>
  "insert_resized s v =
     (case (if copyInProgress s then completeCopy s else Some (Return () s)) of
        None \<Rightarrow> Diverges
      | Some r \<Rightarrow>
          and_then r (\<lambda>_ s1.
            and_then (KeyArray_switchToResizedData s1) (\<lambda>_ s2. insert_store s2 v)))"

definition KeyArray_insert :: "('a::default) KeyArray \<Rightarrow> 'a \<Rightarrow> (int, 'a KeyArray) outcome" where
  "KeyArray_insert s v =
     (if KeyPool_empty (kpool s) then
        (if resizingEnabled s then insert_resized s v
         else if queueEnabled s then Return (- 1) (s\<lparr>overflowQueue := overflowQueue s @ [v]\<rparr>)
         else Throw PoolExhausted s)
      else insert_store s v)"

definition KeyArray_hasKey :: "'a KeyArray \<Rightarrow> int \<Rightarrow> (bool, 'a KeyArray) outcome" where
  \<comment> \<open>\<^verbatim>\<open>key > this->lastKey + offset\<close> is evaluated only when \<^verbatim>\<open>key < offset\<close> is false\<close>
  "KeyArray_hasKey s key =
     (if key < offset s then Return False s
      else if \<not> in_int (lastKey s + offset s) then Undefined
      else if key > lastKey s + offset s then Return False s
      else if \<not> in_int (key - offset s) then Undefined
      else KeyArrayBase_hasKey s (key - offset s))"

definition KeyArray_remove :: "'a KeyArray \<Rightarrow> int \<Rightarrow> (unit, 'a KeyArray) outcome" where
  \<comment> \<open>\<^verbatim>\<open>KeyArrayBase<T>::remove(actualKey)\<close> calls the virtual \<^verbatim>\<open>hasKey\<close>, here \<^verbatim>\<open>KeyArray::hasKey\<close>\<close>
  "KeyArray_remove s key =
     (if key < offset s then Throw InvalidKey s
      else if \<not> in_int (lastKey s + offset s) then Undefined
      else if key > lastKey s + offset s then Throw InvalidKey s
      else if \<not> in_int (key - offset s) then Undefined
      else
        let actualKey = key - offset s in
        and_then (KeyArrayBase_remove KeyArray_hasKey s actualKey) (\<lambda>_ s1.
          if resizingEnabled s1 then
            (if in_bounds (newValid s1) actualKey
             then Return () (s1\<lparr>newValid := (newValid s1)[nat actualKey := False]\<rparr>)
             else Undefined)
          else Return () s1))"

definition KeyArray_contains :: "'a KeyArray \<Rightarrow> 'a \<Rightarrow> (bool, 'a KeyArray) outcome" where
  "KeyArray_contains s v = KeyArrayBase_contains s v"

definition KeyArray_at :: "'a KeyArray \<Rightarrow> int \<Rightarrow> ('a, 'a KeyArray) outcome" where
  \<comment> \<open>\<^verbatim>\<open>KeyArrayBase<T>::at(key - offset)\<close> calls the virtual \<^verbatim>\<open>hasKey\<close>, here \<^verbatim>\<open>KeyArray::hasKey\<close>\<close>
  "KeyArray_at s key =
     (if key < offset s then Throw InvalidKey s
      else if \<not> in_int (lastKey s + offset s) then Undefined
      else if key > lastKey s + offset s then Throw InvalidKey s
      else if \<not> in_int (key - offset s) then Undefined
      else KeyArrayBase_at KeyArray_hasKey s (key - offset s))"

definition KeyArray_at_assign :: "'a KeyArray \<Rightarrow> int \<Rightarrow> 'a \<Rightarrow> (unit, 'a KeyArray) outcome" where
  \<comment> \<open>\<^verbatim>\<open>arr.at(key) = v\<close>\<close>
  "KeyArray_at_assign s key v =
     and_then (KeyArray_at s key)
       (\<lambda>_ s. Return () (s\<lparr>data := (data s)[nat (key - offset s) := v]\<rparr>))"

definition KeyArray_clear :: "('a::default) KeyArray \<Rightarrow> (unit, 'a KeyArray) outcome" where
  "KeyArray_clear s =
     and_then (KeyArrayBase_clear s) (\<lambda>_ s1.
       Return () (s1\<lparr>overflowQueue := [], newData := [], newValid := [],
                      newPool := KeyPool_default, copyInProgress := False, copyIndex := 0\<rparr>))"

subsection \<open>Overflow queue, name, swap\<close>

definition KeyArray_enableQueue :: "'a KeyArray \<Rightarrow> (unit, 'a KeyArray) outcome" where
  "KeyArray_enableQueue s = Return () (s\<lparr>queueEnabled := True\<rparr>)"

definition KeyArray_disableQueue :: "'a KeyArray \<Rightarrow> (unit, 'a KeyArray) outcome" where
  "KeyArray_disableQueue s = Return () (s\<lparr>queueEnabled := False\<rparr>)"

definition KeyArray_clearQueue :: "'a KeyArray \<Rightarrow> (unit, 'a KeyArray) outcome" where
  "KeyArray_clearQueue s = Return () (s\<lparr>overflowQueue := []\<rparr>)"

definition KeyArray_getQueueSize :: "'a KeyArray \<Rightarrow> nat" where
  "KeyArray_getQueueSize s = length (overflowQueue s)"

definition KeyArray_setName :: "'a KeyArray \<Rightarrow> string \<Rightarrow> (unit, 'a KeyArray) outcome" where
  "KeyArray_setName s newName = Return () (s\<lparr>name := newName\<rparr>)"

definition KeyArray_getName :: "'a KeyArray \<Rightarrow> string" where
  "KeyArray_getName s = name s"

definition KeyArray_swap :: "'a KeyArray \<Rightarrow> int \<Rightarrow> int \<Rightarrow> (unit, 'a KeyArray) outcome" where
  "KeyArray_swap s key1 key2 =
     and_then (KeyArray_hasKey s key1) (\<lambda>has1 s.
       if \<not> has1 then Throw InvalidKey s
       else and_then (KeyArray_hasKey s key2) (\<lambda>has2 s.
         if \<not> has2 then Throw InvalidKey s
         else if \<not> (in_int (key1 - offset s) \<and> in_int (key2 - offset s)) then Undefined
         else if in_bounds (data s) (key1 - offset s) \<and> in_bounds (data s) (key2 - offset s)
         then Return () (s\<lparr>data := (data s)[nat (key1 - offset s) := data s ! nat (key2 - offset s),
                                             nat (key2 - offset s) := data s ! nat (key1 - offset s)]\<rparr>)
         else Undefined))"

definition KeyArray_getOffset :: "'a KeyArray \<Rightarrow> int" where
  "KeyArray_getOffset s = offset s"

definition KeyArray_getMaxKeyBound :: "'a KeyArray \<Rightarrow> (int, 'a KeyArray) outcome" where
  "KeyArray_getMaxKeyBound s =
     (if in_int (offset s + lastKey s) then Return (offset s + lastKey s) s else Undefined)"

subsection \<open>Snapshots\<close>

text \<open>
  \<^verbatim>\<open>saveToFile\<close> copies the queue into a \<^verbatim>\<open>std::queue<int>\<close> and \<^verbatim>\<open>loadFromFile\<close> pushes an
  \<^verbatim>\<open>int\<close> onto it, so the two members instantiate for \<^verbatim>\<open>T = int\<close> only.  A file is the string
  of its characters.  An input stream is what is left to read and its \<^verbatim>\<open>failbit\<close>; once the
  bit is set every later extraction does nothing (the loader never clears it).  An
  extraction yields the value it assigns to its variable, if it assigns one, and the stream
  it leaves.
\<close>

fun show_nat :: "nat \<Rightarrow> string" where
  "show_nat n =
     (if n < 10 then [char_of (48 + n)]
      else show_nat (n div 10) @ [char_of (48 + n mod 10)])"

definition show_int :: "int \<Rightarrow> string" where
  "show_int i = (if i < 0 then CHR ''-'' # show_nat (nat (- i)) else show_nat (nat i))"

definition show_bool :: "bool \<Rightarrow> string" where
  "show_bool b = (if b then ''true'' else ''false'')"

definition isspace :: "char \<Rightarrow> bool" where
  "isspace c \<longleftrightarrow> c \<in> set [CHR '' '', CHR 0x0A, CHR 0x09, CHR 0x0D, CHR 0x0B, CHR 0x0C]"

definition isdigit :: "char \<Rightarrow> bool" where
  "isdigit c \<longleftrightarrow> (48::nat) \<le> of_char c \<and> of_char c \<le> (57::nat)"

definition digits_value :: "string \<Rightarrow> int" where
  "digits_value ds = foldl (\<lambda>n c. 10 * n + (of_char c - 48)) 0 ds"

type_synonym istream = "string \<times> bool"

definition getline :: "istream \<Rightarrow> istream" where
  \<comment> \<open>\<^verbatim>\<open>std::getline(file, line)\<close>: the line is dropped with its newline\<close>
  "getline st =
     (case st of (cs, failbit) \<Rightarrow>
        if failbit then st
        else if cs = [] then ([], True)
        else (drop 1 (dropWhile (\<lambda>c. c \<noteq> CHR 0x0A) cs), False))"

definition read_word :: "istream \<Rightarrow> string option \<times> istream" where
  \<comment> \<open>\<^verbatim>\<open>file >> str\<close>\<close>
  "read_word st =
     (case st of (cs, failbit) \<Rightarrow>
        if failbit then (None, st)
        else
          let cs1 = dropWhile isspace cs in
          if cs1 = [] then (None, ([], True))
          else (Some (takeWhile (\<lambda>c. \<not> isspace c) cs1),
                (dropWhile (\<lambda>c. \<not> isspace c) cs1, False)))"

definition read_number :: "int \<Rightarrow> int \<Rightarrow> istream \<Rightarrow> int option \<times> istream" where
  \<comment> \<open>\<^verbatim>\<open>file >> n\<close> for an integer type of range \<open>[lo, hi]\<close>: sign, decimal digits; a failed
      conversion stores 0, an overflow stores the bound\<close>
  "read_number lo hi st =
     (case st of (cs, failbit) \<Rightarrow>
        if failbit then (None, st)
        else
          let cs1 = dropWhile isspace cs in
          if cs1 = [] then (None, ([], True))
          else
            let negative = (hd cs1 = CHR ''-'');
                cs2 = (if hd cs1 = CHR ''-'' \<or> hd cs1 = CHR ''+'' then tl cs1 else cs1);
                ds = takeWhile isdigit cs2;
                rest = dropWhile isdigit cs2;
                n = (if negative then - digits_value ds else digits_value ds)
            in if ds = [] then (Some 0, (rest, True))
               else if n < lo then (Some lo, (rest, True))
               else if n > hi then (Some hi, (rest, True))
               else (Some n, (rest, False)))"

definition read_int :: "istream \<Rightarrow> int option \<times> istream" where
  "read_int = read_number (- (2 ^ 31)) (2 ^ 31 - 1)"

definition read_size_t :: "istream \<Rightarrow> istream" where
  \<comment> \<open>\<^verbatim>\<open>file >> queueSize\<close>; the number read is never used.  A negative numeral whose magnitude
      fits is accepted (and wraps)\<close>
  "read_size_t st = snd (read_number (- (2 ^ 64 - 1)) (2 ^ 64 - 1) st)"

definition read_bool :: "istream \<Rightarrow> bool option \<times> istream" where
  \<comment> \<open>\<^verbatim>\<open>file >> std::boolalpha >> b\<close>\<close>
  "read_bool st =
     (case st of (cs, failbit) \<Rightarrow>
        if failbit then (None, st)
        else
          let cs1 = dropWhile isspace cs in
          if cs1 = [] then (None, ([], True))
          else if take 4 cs1 = ''true'' then (Some True, (drop 4 cs1, False))
          else if take 5 cs1 = ''false'' then (Some False, (drop 5 cs1, False))
          else (Some False, (cs1, True)))"

definition assigned :: "'b option \<Rightarrow> 'b \<Rightarrow> 'b" where
  \<comment> \<open>the variable after an extraction\<close>
  "assigned r old = (case r of None \<Rightarrow> old | Some v \<Rightarrow> v)"

fun save_entries :: "int KeyArray \<Rightarrow> int list \<Rightarrow> string option" where
  \<comment> \<open>\<^verbatim>\<open>for (int i = 0; i <= lastKey; ++i) if (valid[i]) file << (i + offset) << ' ' << data[i] << '\n';\<close>
      \<open>None\<close> when an index is out of range or \<^verbatim>\<open>i + offset\<close> or \<^verbatim>\<open>++i\<close> overflows\<close>
  "save_entries s [] = Some []"
| "save_entries s (i # rest) =
     (if \<not> in_bounds (valid s) i then None
      else if valid s ! nat i then
        (if \<not> in_bounds (data s) i \<or> \<not> in_int (i + offset s) \<or> \<not> in_int (i + 1) then None
         else map_option
                (\<lambda>out. show_int (i + offset s) @ '' '' @ show_int (data s ! nat i) @ [CHR 0x0A] @ out)
                (save_entries s rest))
      else if \<not> in_int (i + 1) then None
      else save_entries s rest)"

definition KeyArray_saveToFile :: "int KeyArray \<Rightarrow> bool \<Rightarrow> (string, int KeyArray) outcome" where
  \<comment> \<open>\<open>opened\<close>: whether the \<^verbatim>\<open>std::ofstream\<close> could be opened; the result is the text written\<close>
  "KeyArray_saveToFile s opened =
     (if \<not> opened then Throw IOFailure s
      else
        (case save_entries s [0..lastKey s] of
           None \<Rightarrow> Undefined
         | Some entries \<Rightarrow>
             Return
               (''version: 2.0'' @ [CHR 0x0A]
                @ ''name: '' @ (if name s = [] then ''(unnamed)'' else name s) @ [CHR 0x0A]
                @ ''offset: '' @ show_int (offset s) @ [CHR 0x0A]
                @ ''lastKey: '' @ show_int (lastKey s) @ [CHR 0x0A]
                @ ''dynamicResizing: '' @ show_bool (resizingEnabled s) @ [CHR 0x0A]
                @ ''queueEnabled: '' @ show_bool (queueEnabled s) @ [CHR 0x0A]
                @ ''queueSize: '' @ show_nat (length (overflowQueue s)) @ [CHR 0x0A]
                @ ''entries:'' @ [CHR 0x0A]
                @ entries
                @ ''queueEntries:'' @ [CHR 0x0A]
                @ (if queueEnabled s \<and> overflowQueue s \<noteq> []
                   then concat (map (\<lambda>v. show_int v @ [CHR 0x0A]) (overflowQueue s))
                   else []))
               s))"

lemma read_number_length_le:
  "read_number lo hi st = (r, st1) \<Longrightarrow> length (fst st1) \<le> length (fst st)"
proof -
  have drop_le: "length (dropWhile P xs) \<le> length xs" for P and xs :: string
    by (simp add: length_dropWhile_le)
  have tl_le: "length (dropWhile P (tl (dropWhile Q xs))) \<le> length xs" for P Q and xs :: string
    by (metis drop_le length_tl le_trans diff_le_self)
  have two_le: "length (dropWhile P (dropWhile Q xs)) \<le> length xs" for P Q and xs :: string
    by (metis drop_le le_trans)
  assume "read_number lo hi st = (r, st1)"
  then show ?thesis
    by (cases st) (auto simp: read_number_def Let_def drop_le tl_le two_le split: if_splits)
qed

lemma read_number_length_less:
  assumes "read_number lo hi st = (r, st1)" and "\<not> snd st1" and "\<not> snd st"
  shows "length (fst st1) < length (fst st)"
proof -
  obtain cs where st: "st = (cs, False)"
    using assms(3) by (cases st) auto
  define cs1 where "cs1 = dropWhile isspace cs"
  define cs2 where "cs2 = (if hd cs1 = CHR ''-'' \<or> hd cs1 = CHR ''+'' then tl cs1 else cs1)"
  have ne: "cs1 \<noteq> []" and ds: "takeWhile isdigit cs2 \<noteq> []"
    and st1: "fst st1 = dropWhile isdigit cs2"
    using assms(1,2) unfolding st cs1_def cs2_def
    by (auto simp: read_number_def Let_def split: if_splits)
  have "length (dropWhile isdigit cs2) < length cs2"
    using ds by (metis length_dropWhile_le le_neq_implies_less takeWhile_dropWhile_id
        append_self_conv length_append add_diff_cancel_right' diff_is_0_eq' length_0_conv
        less_or_eq_imp_le)
  moreover have "length cs2 \<le> length cs1"
    by (simp add: cs2_def)
  moreover have "length cs1 \<le> length cs"
    by (simp add: cs1_def length_dropWhile_le)
  ultimately show ?thesis
    using st1 st by simp
qed

function load_entries ::
  "istream \<Rightarrow> int option \<Rightarrow> int KeyArray \<Rightarrow> (istream, int KeyArray) outcome" where
  \<comment> \<open>\<^verbatim>\<open>while (file >> key) { if (key == -1) break; file >> value; ... }\<close>; the second argument
      is the local \<^verbatim>\<open>T value\<close>, \<open>None\<close> while it is uninitialised\<close>
  "load_entries st val s =
     (case read_int st of
        (None, st1) \<Rightarrow> Return st1 s
      | (Some key, st1) \<Rightarrow>
          if snd st \<or> snd st1 then Return st1 s
          else if key = - 1 then Return st1 s
          else
            (case read_int st1 of (rv, st2) \<Rightarrow>
               let val1 = (case rv of None \<Rightarrow> val | Some v \<Rightarrow> Some v);
                   actualIndex = key - offset s
               in if \<not> in_int actualIndex then Undefined
                  else if actualIndex \<ge> 0 \<and> actualIndex < int_of_size (length (data s)) then
                    (case val1 of
                       None \<Rightarrow> Undefined
                     | Some v \<Rightarrow>
                         if in_bounds (valid s) actualIndex
                         then load_entries st2 val1
                                (s\<lparr>data := (data s)[nat actualIndex := v],
                                   valid := (valid s)[nat actualIndex := True],
                                   elementCount := elementCount s + 1\<rparr>)
                         else Undefined)
                  else load_entries st2 val1 s))"
  by pat_completeness auto
termination
proof (relation "measure (\<lambda>(st, val, s). length (fst st))", goal_cases)
  case 1
  show ?case by simp
next
  case (2 st val s x st1 key rv st2 val1 actualIndex v)
  then have "length (fst st1) < length (fst st)" and "length (fst st2) \<le> length (fst st1)"
    unfolding read_int_def
    by (metis read_number_length_less, metis read_number_length_le)
  then show ?case by simp
next
  case (3 st val s x st1 key rv st2 val1 actualIndex)
  then have "length (fst st1) < length (fst st)" and "length (fst st2) \<le> length (fst st1)"
    unfolding read_int_def
    by (metis read_number_length_less, metis read_number_length_le)
  then show ?case by simp
qed

function load_queue :: "istream \<Rightarrow> int KeyArray \<Rightarrow> istream \<times> int KeyArray" where
  \<comment> \<open>\<^verbatim>\<open>while (file >> key) { overflowQueue.push(key); }\<close>\<close>
  "load_queue st s =
     (case read_int st of
        (None, st1) \<Rightarrow> (st1, s)
      | (Some key, st1) \<Rightarrow>
          if snd st \<or> snd st1 then (st1, s)
          else load_queue st1 (s\<lparr>overflowQueue := overflowQueue s @ [key]\<rparr>))"
  by pat_completeness auto
termination
proof (relation "measure (\<lambda>(st, s). length (fst st))", goal_cases)
  case 1
  show ?case by simp
next
  case (2 st s x st1 key)
  then have "length (fst st1) < length (fst st)"
    unfolding read_int_def
    by (metis read_number_length_less)
  then show ?case by simp
qed

declare load_entries.simps [simp del] load_queue.simps [simp del]

definition KeyArray_loadFromFile ::
  "int KeyArray \<Rightarrow> string option \<Rightarrow> (unit, int KeyArray) outcome" where
  \<comment> \<open>the second argument is the text of the file, \<open>None\<close> when it cannot be opened\<close>
  "KeyArray_loadFromFile s file =
     (case file of
        None \<Rightarrow> Throw IOFailure s
      | Some text \<Rightarrow>
          let st0 = getline (text, False);
              (rname, st1) = read_word (snd (read_word st0));
              (roffset, st2) = read_int (snd (read_word st1));
              (rlastKey, st3) = read_int (snd (read_word st2));
              s1 = s\<lparr>name := assigned rname (name s),
                      offset := assigned roffset (offset s),
                      lastKey := assigned rlastKey (lastKey s)\<rparr>;
              effectiveSize = lastKey s1 + 1
          in if \<not> in_int effectiveSize then Undefined
             else if effectiveSize < 0 then Throw LengthError s1
             else
               let s2 = s1\<lparr>data := resize effectiveSize default (data s1),
                           valid := resize effectiveSize False (valid s1),
                           elementCount := 0,
                           kpool := KeyPool_reset (kpool s1) (offset s1) (lastKey s1)\<rparr>;
                   (rresizing, st4) = read_bool (snd (read_word st3));
                   (rqueue, st5) = read_bool (snd (read_word st4));
                   st6 = read_size_t (snd (read_word st5));
                   st7 = snd (read_word st6);
                   s3 = s2\<lparr>resizingEnabled := assigned rresizing (resizingEnabled s2),
                           queueEnabled := assigned rqueue (queueEnabled s2)\<rparr>
               in and_then (load_entries st7 None s3) (\<lambda>st8 s4.
                    Return () (snd (load_queue (snd (read_word st8)) s4))))"

section \<open>Sequences of public calls\<close>

datatype 'a op =
    Insert 'a | Remove int | HasKey int | Contains 'a | At int | At_assign int 'a | Clear
  | EnableDynamicResizing | DisableDynamicResizing bool | ContinueCopyStep
  | SwitchToResizedData | EnableQueue | DisableQueue | ClearQueue
  | GetQueue_assign "'a list" | SetName string | Swap int int | Iterator_assign int 'a
  | Size | Empty | GetQueueSize | IsDynamicResizingEnabled

datatype 'a res = Unit | Key int | Bool bool | Val 'a | Count nat

fun returning :: "('r \<Rightarrow> 'q) \<Rightarrow> ('r, 's) outcome \<Rightarrow> ('q, 's) outcome" where
  "returning f (Return r s) = Return (f r) s"
| "returning f (Throw e s) = Throw e s"
| "returning f Undefined = Undefined"
| "returning f Diverges = Diverges"

fun step :: "('a::default) op \<Rightarrow> 'a KeyArray \<Rightarrow> ('a res, 'a KeyArray) outcome" where
  "step (Insert v) s = returning Key (KeyArray_insert s v)"
| "step (Remove key) s = returning (\<lambda>_. Unit) (KeyArray_remove s key)"
| "step (HasKey key) s = returning Bool (KeyArray_hasKey s key)"
| "step (Contains v) s = returning Bool (KeyArray_contains s v)"
| "step (At key) s = returning Val (KeyArray_at s key)"
| "step (At_assign key v) s = returning (\<lambda>_. Unit) (KeyArray_at_assign s key v)"
| "step Clear s = returning (\<lambda>_. Unit) (KeyArray_clear s)"
| "step EnableDynamicResizing s = returning (\<lambda>_. Unit) (KeyArray_enableDynamicResizing s)"
| "step (DisableDynamicResizing purgeData) s =
     returning (\<lambda>_. Unit) (KeyArray_disableDynamicResizing s purgeData)"
| "step ContinueCopyStep s = returning (\<lambda>_. Unit) (KeyArray_continueCopyStep s)"
| "step SwitchToResizedData s = returning (\<lambda>_. Unit) (KeyArray_switchToResizedData s)"
| "step EnableQueue s = returning (\<lambda>_. Unit) (KeyArray_enableQueue s)"
| "step DisableQueue s = returning (\<lambda>_. Unit) (KeyArray_disableQueue s)"
| "step ClearQueue s = returning (\<lambda>_. Unit) (KeyArray_clearQueue s)"
| "step (GetQueue_assign q) s = Return Unit (s\<lparr>overflowQueue := q\<rparr>)"
| "step (SetName newName) s = returning (\<lambda>_. Unit) (KeyArray_setName s newName)"
| "step (Swap key1 key2) s = returning (\<lambda>_. Unit) (KeyArray_swap s key1 key2)"
| "step (Iterator_assign i v) s =
     (if in_bounds (data s) i then Return Unit (s\<lparr>data := (data s)[nat i := v]\<rparr>)
      else Undefined)"
| "step Size s = Return (Count (KeyArrayBase_size s)) s"
| "step Empty s = Return (Bool (KeyArrayBase_empty s)) s"
| "step GetQueueSize s = Return (Count (KeyArray_getQueueSize s)) s"
| "step IsDynamicResizingEnabled s = Return (Bool (KeyArray_isDynamicResizingEnabled s)) s"

text \<open>
  \<open>GetQueue_assign q\<close> stands for any change made through the reference that
  \<^verbatim>\<open>getQueue()\<close> returns, \<open>Iterator_assign i v\<close> for \<^verbatim>\<open>*(arr.begin() + i) = v\<close>.  A caller that
  catches an exception goes on with the state the call left.
\<close>

fun run :: "('a::default) op list \<Rightarrow> 'a KeyArray \<Rightarrow> ((error + 'a res) list \<times> 'a KeyArray) option" where
  "run [] s = Some ([], s)"
| "run (c # cs) s =
     (case step c s of
        Return r s1 \<Rightarrow> map_option (\<lambda>(rs, t). (Inr r # rs, t)) (run cs s1)
      | Throw e s1 \<Rightarrow> map_option (\<lambda>(rs, t). (Inl e # rs, t)) (run cs s1)
      | Undefined \<Rightarrow> None
      | Diverges \<Rightarrow> None)"

section \<open>Definitions for the properties\<close>

subsection \<open>Calls on a \<open>KeyArrayBase\<close>\<close>

datatype 'a base_op = Base_insert 'a | Base_remove int

fun insert_all :: "'a KeyArrayBase \<Rightarrow> 'a list \<Rightarrow> (int list, 'a KeyArrayBase) outcome" where
  "insert_all s [] = Return [] s"
| "insert_all s (v # vs) =
     and_then (KeyArrayBase_insert s v) (\<lambda>k s1. returning (\<lambda>ks. k # ks) (insert_all s1 vs))"

fun inserted_keys :: "'a base_op list \<Rightarrow> 'a KeyArrayBase \<Rightarrow> int list" where
  "inserted_keys [] s = []"
| "inserted_keys (Base_insert v # cs) s =
     (case KeyArrayBase_insert s v of
        Return k s1 \<Rightarrow> k # inserted_keys cs s1
      | Throw e s1 \<Rightarrow> inserted_keys cs s1
      | Undefined \<Rightarrow> []
      | Diverges \<Rightarrow> [])"
| "inserted_keys (Base_remove key # cs) s =
     (case KeyArrayBase_remove KeyArrayBase_hasKey s key of
        Return u s1 \<Rightarrow> inserted_keys cs s1
      | Throw e s1 \<Rightarrow> inserted_keys cs s1
      | Undefined \<Rightarrow> []
      | Diverges \<Rightarrow> [])"

definition filled :: "'a KeyArrayBase \<Rightarrow> int \<Rightarrow> int \<Rightarrow> bool" where
  "filled s m L \<longleftrightarrow>
     pool (kpool s) = [] \<and> nextKey (kpool s) = m \<and> maxKey (kpool s) = L - 1 \<and>
     lastKey s = L - 1 \<and> length (data s) = nat L \<and> length (valid s) = nat L \<and>
     0 \<le> m \<and> m \<le> L \<and> (\<forall>j. 0 \<le> j \<and> j < m \<longrightarrow> valid s ! nat j)"

definition never_again :: "int \<Rightarrow> 'a KeyArrayBase \<Rightarrow> bool" where
  "never_again i s \<longleftrightarrow> i < nextKey (kpool s) \<and> i \<notin> set (pool (kpool s))"

subsection \<open>Runs from a constructor, snapshots of a run\<close>

definition run_from ::
  "(error + ('a::default) KeyArray) option \<Rightarrow> 'a op list \<Rightarrow>
     ((error + 'a res) list \<times> 'a KeyArray) option" where
  \<comment> \<open>the calls \<open>cs\<close> on the store a constructor has made\<close>
  "run_from made cs = (case made of Some (Inr s) \<Rightarrow> run cs s | _ \<Rightarrow> None)"

definition state_after ::
  "(error + ('a::default) KeyArray) option \<Rightarrow> 'a op list \<Rightarrow> 'a KeyArray option" where
  "state_after made cs = map_option snd (run_from made cs)"

definition snapshot_of :: "int KeyArray option \<Rightarrow> string option" where
  \<comment> \<open>the text \<^verbatim>\<open>saveToFile\<close> writes for a store\<close>
  "snapshot_of made =
     (case made of
        None \<Rightarrow> None
      | Some s \<Rightarrow> (case KeyArray_saveToFile s True of Return text t \<Rightarrow> Some text | _ \<Rightarrow> None))"

definition load_into :: "int KeyArray option \<Rightarrow> string option \<Rightarrow> (unit, int KeyArray) outcome" where
  "load_into made file = (case made of None \<Rightarrow> Undefined | Some s \<Rightarrow> KeyArray_loadFromFile s file)"

subsection \<open>What the migration loop leaves unchanged, and its bound\<close>

definition copy_frame :: "'a KeyArray \<Rightarrow> 'a KeyArray \<Rightarrow> bool" where
  "copy_frame s t \<longleftrightarrow>
     lastKey t = lastKey s \<and> elementCount t = elementCount s \<and> data t = data s \<and>
     valid t = valid s \<and> kpool t = kpool s \<and> offset t = offset s \<and> name t = name s \<and>
     resizingEnabled t = resizingEnabled s \<and> newPool t = newPool s \<and>
     queueEnabled t = queueEnabled s \<and> overflowQueue t = overflowQueue s \<and>
     length (newData t) = length (newData s) \<and> length (newValid t) = length (newValid s) \<and>
     copyIndex s \<le> copyIndex t"


subsection \<open>Reachable states\<close>

text \<open>
  A state is reachable when a constructor returns it or a public call, made on a reachable
  state, returns or throws and leaves it.  The parameter \<open>io\<close> adds the states a load leaves:
  \<open>no_loads\<close> for any element type, \<open>loads\<close> for \<^verbatim>\<open>KeyArray<int>\<close>, where \<^verbatim>\<open>loadFromFile\<close> may be
  given any file at all.
\<close>

definition loads :: "int KeyArray \<Rightarrow> int KeyArray \<Rightarrow> bool" where
  "loads s t \<longleftrightarrow>
     (\<exists>file. KeyArray_loadFromFile s file = Return () t \<or>
             (\<exists>e. KeyArray_loadFromFile s file = Throw e t))"

definition no_loads :: "('a::default) KeyArray \<Rightarrow> 'a KeyArray \<Rightarrow> bool" where
  "no_loads s t \<longleftrightarrow> False"

inductive reachable ::
  "(('a::default) KeyArray \<Rightarrow> 'a KeyArray \<Rightarrow> bool) \<Rightarrow> 'a KeyArray \<Rightarrow> bool"
  for io :: "('a::default) KeyArray \<Rightarrow> 'a KeyArray \<Rightarrow> bool" where
  named: "KeyArray_named nm = Some (Inr s) \<Longrightarrow> reachable io s"
| limit: "KeyArray_limit limitKey nm = Some (Inr s) \<Longrightarrow> reachable io s"
| range: "KeyArray_range a b nm = Some (Inr s) \<Longrightarrow> reachable io s"
| returned: "reachable io s \<Longrightarrow> step c s = Return r t \<Longrightarrow> reachable io t"
| thrown: "reachable io s \<Longrightarrow> step c s = Throw e t \<Longrightarrow> reachable io t"
| loaded: "reachable io s \<Longrightarrow> io s t \<Longrightarrow> reachable io t"

definition int_ranged :: "'a KeyArray \<Rightarrow> bool" where
  \<comment> \<open>what keeps the arithmetic of the base class in the range of \<^verbatim>\<open>int\<close>\<close>
  "int_ranged s \<longleftrightarrow>
     in_int (lastKey s) \<and> in_int (lastKey s + 1) \<and> in_int (offset s) \<and>
     int (length (data s)) \<le> INT_MAX \<and> int (length (newData s)) \<le> INT_MAX"

subsection \<open>A store with a migration under way\<close>

text \<open>
  \<open>copying\<close> describes a store with the resizer enabled whose shadow covers it: the vectors of
  the active store have \<open>lastKey + 1\<close> slots, the shadow vectors have at least as many, and every
  used slot the copy cursor has passed is in the shadow with its value.  Nothing is asked of
  the offset.  \<open>migrating\<close> adds what \<^verbatim>\<open>enableDynamicResizing\<close> and \<^verbatim>\<open>switchToResizedData\<close> set up
  on a store with offset 0: a shadow of twice the slots, a shadow allocator over the new ids,
  and an allocator that hands out ids of the active store only.
\<close>

definition pool_in_range :: "KeyPool \<Rightarrow> int \<Rightarrow> bool" where
  "pool_in_range p L \<longleftrightarrow>
     0 \<le> nextKey p \<and> maxKey p \<le> L \<and> list_all (\<lambda>k. 0 \<le> k \<and> k \<le> L) (pool p)"




subsection \<open>One insertion, one migration step\<close>





subsection \<open>What every reachable state satisfies\<close>

text \<open>
  \<open>well_formed\<close>: the shadow allocator is not exhausted and the fields are in the range of
  \<^verbatim>\<open>int\<close>.  \<open>loaded_frame\<close>: what the loop over the entries of a file leaves as it is.
\<close>

definition well_formed :: "'a KeyArray \<Rightarrow> bool" where
  "well_formed s \<longleftrightarrow> \<not> KeyPool_empty (newPool s) \<and> int_ranged s"

definition loaded_frame :: "int KeyArray \<Rightarrow> int KeyArray \<Rightarrow> bool" where
  "loaded_frame s t \<longleftrightarrow>
     lastKey t = lastKey s \<and> offset t = offset s \<and> length (data t) = length (data s) \<and>
     newData t = newData s \<and> newPool t = newPool s"

section \<open>Properties\<close>

subsection \<open>Recycling in the key pool\<close>

lemma filled_init:
  "KeyArrayBase_init L = Inr s \<Longrightarrow> 0 < L \<Longrightarrow> filled s 0 L"
  by (auto simp: KeyArrayBase_init_def filled_def resize_def KeyPool_range_def split: if_splits)

lemma filled_insert:
  assumes "filled s m L" and "m < L"
  shows "\<exists>s1. KeyArrayBase_insert s v = Return m s1 \<and> filled s1 (m + 1) L"
proof -
  have "nat j = nat m \<longleftrightarrow> j = m" if "0 \<le> j" for j
    using assms that by (auto simp: filled_def)
  then show ?thesis
  using assms
  by (auto simp: filled_def KeyArrayBase_insert_def KeyPool_empty_def KeyPool_pop_def
      in_bounds_def nth_list_update)
qed

lemma insert_all_filled:
  "filled s m L \<Longrightarrow> m + int (length vs) \<le> L \<Longrightarrow>
   \<exists>s1. insert_all s vs = Return [m ..m + int (length vs) - 1] s1 \<and> filled s1 (m + int (length vs)) L"
proof (induction vs arbitrary: s m)
  case Nil
  then show ?case by simp
next
  case (Cons v vs)
  have lt: "m < L"
    using Cons.prems(2) by simp
  obtain s1 where s1: "KeyArrayBase_insert s v = Return m s1" "filled s1 (m + 1) L"
    using filled_insert[OF Cons.prems(1) lt] by blast
  have le: "m + 1 + int (length vs) \<le> L"
    using Cons.prems(2) by simp
  obtain s2 where
    s2: "insert_all s1 vs = Return [m + 1..m + 1 + int (length vs) - 1] s2"
        "filled s2 (m + 1 + int (length vs)) L"
    using Cons.IH[OF s1(2) le] by blast
  have len: "m + 1 + int (length vs) = m + int (length (v # vs))"
    by simp
  have "m \<le> m + int (length (v # vs)) - 1"
    by simp
  then have up: "[m..m + int (length (v # vs)) - 1] = m # [m + 1..m + int (length (v # vs)) - 1]"
    by (rule upto_rec1)
  have "insert_all s (v # vs) = Return (m # [m + 1..m + 1 + int (length vs) - 1]) s2"
    by (simp only: insert_all.simps s1(1) s2(1) and_then.simps returning.simps)
  then have "insert_all s (v # vs) = Return [m..m + int (length (v # vs)) - 1] s2"
    by (simp only: up len)
  moreover have "filled s2 (m + int (length (v # vs))) L"
    using s2(2) by (simp only: len)
  ultimately show ?case
    by blast
qed

lemma KeyPool_pop_Return:
  "KeyPool_pop p = Return k p1 \<Longrightarrow>
     (pool p = k # pool p1 \<and> nextKey p1 = nextKey p) \<or>
     (pool p = [] \<and> pool p1 = [] \<and> k = nextKey p \<and> nextKey p1 = nextKey p + 1)"
  by (cases "pool p") (auto simp: KeyPool_pop_def split: if_splits)

lemma KeyPool_pop_Throw:
  "KeyPool_pop p = Throw e p1 \<Longrightarrow> p1 = p"
  by (cases "pool p") (auto simp: KeyPool_pop_def split: if_splits)

lemma KeyArrayBase_insert_Return:
  "KeyArrayBase_insert s v = Return k s1 \<Longrightarrow> KeyPool_pop (kpool s) = Return k (kpool s1)"
  unfolding KeyArrayBase_insert_def
  by (cases "KeyPool_pop (kpool s)") (auto split: if_splits)

lemma KeyArrayBase_insert_Throw:
  "KeyArrayBase_insert s v = Throw e s1 \<Longrightarrow> kpool s1 = kpool s"
  unfolding KeyArrayBase_insert_def
  by (cases "KeyPool_pop (kpool s)") (auto split: if_splits dest: KeyPool_pop_Throw)

lemma KeyArrayBase_remove_kpool:
  assumes "KeyArrayBase_remove KeyArrayBase_hasKey s key = Return u s1 \<or> KeyArrayBase_remove KeyArrayBase_hasKey s key = Throw e s1"
  shows "kpool s1 = kpool s \<or> kpool s1 = KeyPool_push (kpool s) key"
proof (cases "KeyArrayBase_hasKey s key")
  case (Return b t)
  then have "t = s"
    by (auto simp: KeyArrayBase_hasKey_def split: if_splits)
  with Return assms show ?thesis
    by (cases b) (auto simp: KeyArrayBase_remove_def split: if_splits)
qed (use assms in \<open>auto simp: KeyArrayBase_remove_def KeyArrayBase_hasKey_def split: if_splits\<close>)

lemma never_again_insert:
  assumes "never_again i s" and "KeyArrayBase_insert s v = Return k s1"
  shows "k \<noteq> i \<and> never_again i s1"
  using KeyPool_pop_Return[OF KeyArrayBase_insert_Return[OF assms(2)]] assms(1)
  by (auto simp: never_again_def)

lemma never_again_insert_throw:
  "never_again i s \<Longrightarrow> KeyArrayBase_insert s v = Throw e s1 \<Longrightarrow> never_again i s1"
  by (simp add: never_again_def KeyArrayBase_insert_Throw)

lemma never_again_remove:
  assumes "never_again i s"
    and "KeyArrayBase_remove KeyArrayBase_hasKey s key = Return u s1 \<or> KeyArrayBase_remove KeyArrayBase_hasKey s key = Throw e s1"
  shows "never_again i s1"
  using KeyArrayBase_remove_kpool[OF assms(2)] assms(1)
  by (auto simp: never_again_def KeyPool_push_def split: if_splits)

lemma never_again_keys:
  "never_again i s \<Longrightarrow> i \<notin> set (inserted_keys cs s)"
proof (induction cs arbitrary: s)
  case Nil
  then show ?case by simp
next
  case (Cons c cs)
  show ?case
  proof (cases c)
    case (Base_insert v)
    show ?thesis
    proof (cases "KeyArrayBase_insert s v")
      case (Return k s1)
      note step = never_again_insert[OF Cons.prems Return]
      from step Cons.IH[of s1] show ?thesis
        by (simp add: Base_insert Return)
    next
      case (Throw e s1)
      note step = never_again_insert_throw[OF Cons.prems Throw]
      from step Cons.IH[of s1] show ?thesis
        by (simp add: Base_insert Throw)
    next
      case Undefined
      then show ?thesis by (simp add: Base_insert)
    next
      case Diverges
      then show ?thesis by (simp add: Base_insert)
    qed
  next
    case (Base_remove key)
    show ?thesis
    proof (cases "KeyArrayBase_remove KeyArrayBase_hasKey s key")
      case (Return u s1)
      then have "KeyArrayBase_remove KeyArrayBase_hasKey s key = Return u s1 \<or> KeyArrayBase_remove KeyArrayBase_hasKey s key = Throw PoolExhausted s1"
        by simp
      note step = never_again_remove[OF Cons.prems this]
      from step Cons.IH[of s1] show ?thesis
        by (simp add: Base_remove Return)
    next
      case (Throw e s1)
      then have "KeyArrayBase_remove KeyArrayBase_hasKey s key = Return () s1 \<or> KeyArrayBase_remove KeyArrayBase_hasKey s key = Throw e s1"
        by simp
      note step = never_again_remove[OF Cons.prems this]
      from step Cons.IH[of s1] show ?thesis
        by (simp add: Base_remove Throw)
    next
      case Undefined
      then show ?thesis by (simp add: Base_remove)
    next
      case Diverges
      then show ?thesis by (simp add: Base_remove)
    qed
  qed
qed

text \<open>
  Claim C1.  \<^verbatim>\<open>KeyPool::push\<close> puts an id on the stack exactly when it lies between \<open>nextKey\<close>
  (the frontier) and \<open>maxKey\<close>, and otherwise returns the pool as it was.  Hence, in a
  freshly constructed \<open>KeyArrayBase\<close> of capacity \<open>L\<close>, inserting \<open>n \<le> L\<close> values returns
  the ids \<open>0, ..., n - 1\<close> and leaves the frontier at \<open>n\<close>; removing an id \<open>i < n\<close> then
  succeeds and recycles nothing, and whatever inserts and removals follow, no insert
  returns \<open>i\<close> again.  (\<^verbatim>\<open>clear\<close> is not among the calls that follow: it resets the pool.  The
  store is a \<^verbatim>\<open>KeyArrayBase\<close> object, so the virtual \<^verbatim>\<open>hasKey\<close> in \<^verbatim>\<open>remove\<close> is \<^verbatim>\<open>KeyArrayBase::hasKey\<close>.)
\<close>

theorem recycle_never_reuses_below_frontier:
  "(nextKey p \<le> v \<and> v \<le> maxKey p \<longrightarrow> KeyPool_push p v = p\<lparr>pool := v # pool p\<rparr>) \<and>
   (\<not> (nextKey p \<le> v \<and> v \<le> maxKey p) \<longrightarrow> KeyPool_push p v = p) \<and>
   (KeyArrayBase_init L = Inr s0 \<and> int (length vs) \<le> L \<and> 0 \<le> i \<and> i < int (length vs) \<longrightarrow>
     (\<exists>s1 s2. insert_all s0 vs = Return [0..int (length vs) - 1] s1 \<and>
        nextKey (kpool s1) = int (length vs) \<and>
        KeyArrayBase_remove KeyArrayBase_hasKey s1 i = Return () s2 \<and>
        kpool s2 = kpool s1 \<and>
        (\<forall>cs. i \<notin> set (inserted_keys cs s2))))"
proof (intro conjI impI)
  show "KeyPool_push p v = p\<lparr>pool := v # pool p\<rparr>" if "nextKey p \<le> v \<and> v \<le> maxKey p"
    using that by (simp add: KeyPool_push_def)
  show "KeyPool_push p v = p" if "\<not> (nextKey p \<le> v \<and> v \<le> maxKey p)"
    using that by (auto simp: KeyPool_push_def)
next
  assume a: "KeyArrayBase_init L = Inr s0 \<and> int (length vs) \<le> L \<and> 0 \<le> i \<and> i < int (length vs)"
  then have "filled s0 0 L"
    by (intro filled_init) auto
  with a obtain s1 where s1: "insert_all s0 vs = Return [0..int (length vs) - 1] s1"
      "filled s1 (int (length vs)) L"
    using insert_all_filled[of s0 0 L vs] by auto
  define s2 where "s2 = s1\<lparr>valid := (valid s1)[nat i := False], elementCount := elementCount s1 - 1\<rparr>"
  have rm: "KeyArrayBase_remove KeyArrayBase_hasKey s1 i = Return () s2"
    using s1(2) a
    by (auto simp: s2_def filled_def KeyArrayBase_remove_def KeyArrayBase_hasKey_def
        in_bounds_def KeyPool_push_def)
  have "never_again i s2"
    using s1(2) a by (simp add: never_again_def s2_def filled_def)
  then have "\<forall>cs. i \<notin> set (inserted_keys cs s2)"
    by (simp add: never_again_keys)
  with s1 rm show "\<exists>s1 s2. insert_all s0 vs = Return [0..int (length vs) - 1] s1 \<and>
        nextKey (kpool s1) = int (length vs) \<and>
        KeyArrayBase_remove KeyArrayBase_hasKey s1 i = Return () s2 \<and>
        kpool s2 = kpool s1 \<and>
        (\<forall>cs. i \<notin> set (inserted_keys cs s2))"
    by (auto simp: filled_def s2_def)
qed

theorem recycle_never_reuses_below_frontier_witness:
  "KeyArrayBase_init 3 =
     Inr \<lparr>lastKey = 2, elementCount = 0, data = [0, 0, 0 :: int], valid = [False, False, False],
          kpool = \<lparr>nextKey = 0, maxKey = 2, pool = []\<rparr>\<rparr> \<and>
   (\<exists>s1 s2. insert_all \<lparr>lastKey = 2, elementCount = 0, data = [0, 0, 0 :: int],
                 valid = [False, False, False],
                 kpool = \<lparr>nextKey = 0, maxKey = 2, pool = []\<rparr>\<rparr> [10, 20, 30] = Return [0, 1, 2] s1 \<and>
      nextKey (kpool s1) = 3 \<and>
      KeyArrayBase_remove KeyArrayBase_hasKey s1 1 = Return () s2 \<and> kpool s2 = kpool s1 \<and>
      (\<forall>cs. 1 \<notin> set (inserted_keys cs s2)))"
proof -
  define S :: "int KeyArrayBase" where
    "S = \<lparr>lastKey = 2, elementCount = 0, data = [0, 0, 0], valid = [False, False, False],
          kpool = \<lparr>nextKey = 0, maxKey = 2, pool = []\<rparr>\<rparr>"
  have init: "KeyArrayBase_init 3 = Inr S"
    by (simp add: S_def KeyArrayBase_init_def resize_def KeyPool_range_def default_int_def
        numeral_3_eq_3)
  have len: "int (length [10, 20, 30 :: int]) = 3"
    by simp
  have up: "[0..(3::int) - 1] = [0, 1, 2]"
    by (simp add: upto_rec1)
  have hyp: "KeyArrayBase_init 3 = Inr S \<and> int (length [10, 20, 30 :: int]) \<le> 3 \<and>
      (0::int) \<le> 1 \<and> 1 < int (length [10, 20, 30 :: int])"
    using init by simp
  have "\<exists>s1 s2. insert_all S [10, 20, 30] = Return [0..int (length [10, 20, 30 :: int]) - 1] s1 \<and>
        nextKey (kpool s1) = int (length [10, 20, 30 :: int]) \<and>
        KeyArrayBase_remove KeyArrayBase_hasKey s1 1 = Return () s2 \<and> kpool s2 = kpool s1 \<and>
        (\<forall>cs. 1 \<notin> set (inserted_keys cs s2))"
    using recycle_never_reuses_below_frontier[THEN conjunct2, THEN conjunct2, rule_format, OF hyp] .
  then have "\<exists>s1 s2. insert_all S [10, 20, 30] = Return [0, 1, 2] s1 \<and>
        nextKey (kpool s1) = 3 \<and>
        KeyArrayBase_remove KeyArrayBase_hasKey s1 1 = Return () s2 \<and> kpool s2 = kpool s1 \<and>
        (\<forall>cs. 1 \<notin> set (inserted_keys cs s2))"
    unfolding len up .
  with init show ?thesis
    unfolding S_def by (rule conjI)
qed

subsection \<open>The driver of the repository\<close>

text \<open>
  The calls of \<^verbatim>\<open>main.cpp\<close> up to its \<^verbatim>\<open>clear()\<close>, with the results its \<^verbatim>\<open>EXPECTED OUTPUT\<close> lines
  announce.
\<close>

lemma driver_scenario:
  "map_option fst
     (run_from (KeyArray_named ''MyArray'')
        [Empty, Insert ''apple'', Insert ''banana'', Insert ''cherry'', Size, At 1,
         At_assign 1 ''blueberry'', At 1, HasKey 0, HasKey 99, Contains ''apple'', Swap 0 2,
         At 0, At 2, Remove 0, Size, HasKey 0, Clear, Size, Empty]) =
   Some [Inr (Bool True), Inr (Key 0), Inr (Key 1), Inr (Key 2), Inr (Count 3),
         Inr (Val ''banana''), Inr Unit, Inr (Val ''blueberry''), Inr (Bool True),
         Inr (Bool False), Inr (Bool True), Inr Unit, Inr (Val ''cherry''), Inr (Val ''apple''),
         Inr Unit, Inr (Count 2), Inr (Bool False), Inr Unit, Inr (Count 0), Inr (Bool True)]"
  by code_simp

subsection \<open>Clearing\<close>




subsection \<open>The sentinel of a buffered insert\<close>

text \<open>
  Claim C8 fails on the code for a negative offset.  The store \<^verbatim>\<open>KeyArray<int>(-2, 2)\<close> has
  the logical keys \<open>-2 .. 1\<close>; its second insert returns the real key \<open>-1\<close>, and once it
  is full and the queue is enabled, a further insert buffers its value and returns \<open>-1\<close>
  as well, while \<^verbatim>\<open>hasKey(-1)\<close> is true and \<^verbatim>\<open>at(-1)\<close> is the second value.
\<close>

theorem sentinel_is_a_real_key:
  "run_from (KeyArray_range (- 2) 2 ''x'')
     [Insert 10, Insert 11, Insert 12, Insert 13, EnableQueue, Insert 42, HasKey (- 1), At (- 1)] =
   Some ([Inr (Key (- 2)), Inr (Key (- 1)), Inr (Key 0), Inr (Key 1), Inr Unit,
          Inr (Key (- 1)), Inr (Bool True), Inr (Val (11::int))],
         \<lparr>lastKey = 3, elementCount = 4, data = [10, 11, 12, 13],
          valid = [True, True, True, True],
          kpool = \<lparr>nextKey = 4, maxKey = 3, pool = []\<rparr>, offset = - 2,
          name = ''x'', resizingEnabled = False, copyInProgress = False,
          copyIndex = 0, newData = [], newValid = [],
          newPool = \<lparr>nextKey = 0, maxKey = 99, pool = []\<rparr>, queueEnabled = True,
          overflowQueue = [42]\<rparr>)"
  by code_simp

subsection \<open>Element count and valid keys\<close>

text \<open>
  Claim C4 fails on the code.  After the resizer is disabled without purge, a removal is
  not mirrored into the shadow; once resizing is enabled again and the store switches, the
  removed key is valid again and \<^verbatim>\<open>size()\<close> is 2 while three keys answer \<^verbatim>\<open>hasKey\<close> with true.
  Likewise \<^verbatim>\<open>loadFromFile\<close> sets the count to 0 and keeps the validity flags of the store it
  loads into: after loading the snapshot of an empty store into a store holding one
  element, \<^verbatim>\<open>size()\<close> is 0 and \<^verbatim>\<open>hasKey(0)\<close> is true.
\<close>

theorem size_differs_from_valid_keys:
  "run_from (KeyArray_limit 2 [])
     [EnableDynamicResizing, Insert 10, DisableDynamicResizing False, Remove 0,
      EnableDynamicResizing, Insert 20, Insert 30, Size, HasKey 0, HasKey 1, HasKey 2, HasKey 3] =
   Some ([Inr Unit, Inr (Key 0), Inr Unit, Inr Unit, Inr Unit, Inr (Key 1), Inr (Key 2),
          Inr (Count 2), Inr (Bool True), Inr (Bool True), Inr (Bool True), Inr (Bool False)],
         \<lparr>lastKey = 3, elementCount = 2, data = [10, 20, 30, 0 :: int],
          valid = [True, True, True, False],
          kpool = \<lparr>nextKey = 3, maxKey = 3, pool = []\<rparr>, offset = 0, name = [],
          resizingEnabled = True, copyInProgress = True, copyIndex = 1,
          newData = [10, 0, 30, 0, 0, 0, 0, 0],
          newValid = [True, False, True, False, False, False, False, False],
          newPool = \<lparr>nextKey = 4, maxKey = 7, pool = []\<rparr>, queueEnabled = False,
          overflowQueue = []\<rparr>) \<and>
   and_then
     (load_into (state_after (KeyArray_limit 2 []) [Insert 5])
        (snapshot_of (state_after (KeyArray_limit 2 []) [])))
     (\<lambda>u s. Return (KeyArrayBase_size s, KeyArray_hasKey s 0) s) =
   Return (0, Return True
               \<lparr>lastKey = 1, elementCount = 0, data = [5, 0], valid = [True, False],
                kpool = \<lparr>nextKey = 0, maxKey = 1, pool = []\<rparr>, offset = 0,
                name = ''(unnamed)'', resizingEnabled = False, copyInProgress = False,
                copyIndex = 0, newData = [], newValid = [],
                newPool = \<lparr>nextKey = 0, maxKey = 99, pool = []\<rparr>, queueEnabled = False,
                overflowQueue = []\<rparr>)
     \<lparr>lastKey = 1, elementCount = 0, data = [5, 0], valid = [True, False],
      kpool = \<lparr>nextKey = 0, maxKey = 1, pool = []\<rparr>, offset = 0,
      name = ''(unnamed)'', resizingEnabled = False, copyInProgress = False,
      copyIndex = 0, newData = [], newValid = [],
      newPool = \<lparr>nextKey = 0, maxKey = 99, pool = []\<rparr>, queueEnabled = False,
      overflowQueue = []\<rparr>"
  by code_simp

subsection \<open>Saving and loading\<close>

text \<open>
  Claim C3 fails on the code.  A store with the buffer \<open>[7]\<close> is saved; the text has the
  line \<^verbatim>\<open>7\<close> under \<^verbatim>\<open>queueEntries:\<close>.  Loading it into a fresh store ends the entries loop by
  a failed extraction of an \<^verbatim>\<open>int\<close> at \<^verbatim>\<open>queueEntries:\<close>, which sets the \<^verbatim>\<open>failbit\<close>; the reads
  of the label and of the queue entries then do nothing, and the buffer stays empty.
\<close>

theorem load_drops_the_saved_buffer:
  "state_after (KeyArray_limit 1 []) [Insert 1, EnableQueue, Insert 7] =
     Some \<lparr>lastKey = 0, elementCount = 1, data = [1 :: int], valid = [True],
           kpool = \<lparr>nextKey = 1, maxKey = 0, pool = []\<rparr>, offset = 0, name = [],
           resizingEnabled = False, copyInProgress = False, copyIndex = 0,
           newData = [], newValid = [],
           newPool = \<lparr>nextKey = 0, maxKey = 99, pool = []\<rparr>, queueEnabled = True,
           overflowQueue = [7]\<rparr> \<and>
   snapshot_of (state_after (KeyArray_limit 1 []) [Insert 1, EnableQueue, Insert 7]) =
     Some ''version: 2.0\<newline>name: (unnamed)\<newline>offset: 0\<newline>lastKey: 0\<newline>dynamicResizing: false\<newline>queueEnabled: true\<newline>queueSize: 1\<newline>entries:\<newline>0 1\<newline>queueEntries:\<newline>7\<newline>'' \<and>
   load_into (state_after (KeyArray_limit 1 []) [])
     (snapshot_of (state_after (KeyArray_limit 1 []) [Insert 1, EnableQueue, Insert 7])) =
     Return ()
       \<lparr>lastKey = 0, elementCount = 1, data = [1], valid = [True],
        kpool = \<lparr>nextKey = 0, maxKey = 0, pool = []\<rparr>, offset = 0,
        name = ''(unnamed)'', resizingEnabled = False, copyInProgress = False,
        copyIndex = 0, newData = [], newValid = [],
        newPool = \<lparr>nextKey = 0, maxKey = 99, pool = []\<rparr>, queueEnabled = True,
        overflowQueue = []\<rparr>"
  by code_simp

subsection \<open>The migration loop\<close>

lemma copy_frame_refl: "copy_frame s s"
  by (simp add: copy_frame_def)

lemma copy_frame_trans: "copy_frame s t \<Longrightarrow> copy_frame t u \<Longrightarrow> copy_frame s u"
  by (simp add: copy_frame_def)

lemma continueCopyStep_frame:
  "KeyArray_continueCopyStep s = Return u t \<Longrightarrow> copy_frame s t"
  by (auto simp: KeyArray_continueCopyStep_def copy_frame_def split: if_splits)

lemma continueCopyStep_no_throw:
  "KeyArray_continueCopyStep s \<noteq> Throw e t"
  by (auto simp: KeyArray_continueCopyStep_def split: if_splits)

lemma continueCopyStep_no_diverge:
  "KeyArray_continueCopyStep s \<noteq> Diverges"
  by (auto simp: KeyArray_continueCopyStep_def split: if_splits)

lemma completeCopy_Some:
  assumes "completeCopy s = Some r"
  shows "r = Undefined \<or> (\<exists>t. r = Return () t \<and> copy_frame s t \<and> \<not> copyInProgress t)"
  using assms
proof (induct rule: completeCopy.raw_induct)
  case (1 cc s r)
  show ?case
  proof (cases "copyInProgress s")
    case False
    with 1(2) show ?thesis
      by (auto simp: copy_frame_refl)
  next
    case True
    show ?thesis
    proof (cases "KeyArray_continueCopyStep s")
      case (Return u s1)
      with True 1(2) have "cc s1 = Some r"
        by simp
      moreover have "completeCopy s1 = Some r"
        using 1(3) True Return by (subst (asm) completeCopy.simps) simp
      ultimately have "r = Undefined \<or> (\<exists>t. r = Return () t \<and> copy_frame s1 t \<and> \<not> copyInProgress t)"
        by (rule 1(1))
      then show ?thesis
      proof
        assume "r = Undefined"
        then show ?thesis by simp
      next
        assume "\<exists>t. r = Return () t \<and> copy_frame s1 t \<and> \<not> copyInProgress t"
        then obtain t where t: "r = Return () t" "copy_frame s1 t" "\<not> copyInProgress t"
          by auto
        have "copy_frame s t"
          by (rule copy_frame_trans[OF continueCopyStep_frame[OF Return] t(2)])
        with t show ?thesis by simp
      qed
    next
      case (Throw e s1)
      then show ?thesis
        by (simp add: continueCopyStep_no_throw)
    next
      case Undefined
      with True 1(2) show ?thesis
        by simp
    next
      case Diverges
      then show ?thesis
        by (simp add: continueCopyStep_no_diverge)
    qed
  qed
qed (rule assms)



lemma and_then_ReturnE:
  assumes "and_then x f = Return r t"
  obtains q s1 where "x = Return q s1" and "f q s1 = Return r t"
  using assms by (cases x) auto

lemma and_then_ThrowE:
  assumes "and_then x f = Throw e t"
  obtains "x = Throw e t" | q s1 where "x = Return q s1" and "f q s1 = Throw e t"
  using assms by (cases x) auto

lemma prepare_shadow_ReturnE:
  assumes "prepare_shadow s = Return u t"
  shows "t = s\<lparr>newData := resize (2 * (lastKey s + 1) - offset s) default (newData s),
                newValid := resize (2 * (lastKey s + 1) - offset s) False (newValid s),
                newPool := KeyPool_range (lastKey s + 1 - offset s)
                             (2 * (lastKey s + 1) - 2 * offset s - 1)\<rparr> \<and>
         0 \<le> 2 * (lastKey s + 1) - offset s \<and> in_int (2 * (lastKey s + 1) - offset s)"
proof -
  have eq: "offset s + (lastKey s + 1 - offset s) * 2 - 1 + 1 = 2 * (lastKey s + 1) - offset s"
    "offset s + (lastKey s + 1 - offset s) * 2 - 1 - offset s = 2 * (lastKey s + 1) - 2 * offset s - 1"
    by simp_all
  from assms show ?thesis
    unfolding prepare_shadow_def Let_def eq
    by (simp split: if_splits)
qed

lemma prepare_shadow_ThrowE:
  assumes "prepare_shadow s = Throw e t"
  shows "t = s \<and> e = LengthError"
  using assms unfolding prepare_shadow_def Let_def
  by (simp split: if_splits)


lemma switchToResizedData_ReturnE:
  assumes "KeyArray_switchToResizedData s = Return u t"
  shows "overflowQueue t = overflowQueue s \<and> data t = newData s \<and> valid t = newValid s \<and>
         kpool t = newPool s \<and> lastKey t = int_of_size (length (newData s)) - 1 \<and>
         offset t = offset s \<and> resizingEnabled t = resizingEnabled s \<and>
         queueEnabled t = queueEnabled s \<and> elementCount t = elementCount s \<and>
         resizingEnabled s \<and> \<not> copyInProgress s \<and> \<not> KeyPool_empty (newPool t)"
proof -
  define s3 where "s3 = s\<lparr>data := newData s, valid := newValid s, kpool := newPool s,
      lastKey := int_of_size (length (newData s)) - 1, newData := [], newValid := [],
      newPool := KeyPool_default, copyIndex := 0\<rparr>"
  from assms have re: "resizingEnabled s" "\<not> copyInProgress s"
    by (auto simp: KeyArray_switchToResizedData_def split: if_splits)
  with assms have "and_then (prepare_shadow s3)
      (\<lambda>_ s4. Return () (s4\<lparr>copyInProgress := True, copyIndex := 0\<rparr>)) = Return u t"
    by (simp add: KeyArray_switchToResizedData_def Let_def s3_def split: if_splits)
  then obtain q s4 where s4: "prepare_shadow s3 = Return q s4"
      and t: "t = s4\<lparr>copyInProgress := True, copyIndex := 0\<rparr>"
    by (elim and_then_ReturnE) auto
  from prepare_shadow_ReturnE[OF s4] t re show ?thesis
    by (simp add: s3_def KeyPool_range_def KeyPool_empty_def)
qed

lemma switchToResizedData_ThrowE:
  assumes "KeyArray_switchToResizedData s = Throw e t"
  shows "(e = ResizeNotReady \<and> t = s \<and> (\<not> resizingEnabled s \<or> copyInProgress s)) \<or>
         (e = LengthError \<and> resizingEnabled s \<and> \<not> copyInProgress s \<and>
          overflowQueue t = overflowQueue s \<and> newPool t = KeyPool_default)"
proof (cases "\<not> resizingEnabled s \<or> copyInProgress s")
  case True
  with assms show ?thesis
    by (auto simp: KeyArray_switchToResizedData_def)
next
  case False
  define s3 where "s3 = s\<lparr>data := newData s, valid := newValid s, kpool := newPool s,
      lastKey := int_of_size (length (newData s)) - 1, newData := [], newValid := [],
      newPool := KeyPool_default, copyIndex := 0\<rparr>"
  from assms False have "and_then (prepare_shadow s3)
      (\<lambda>_ s4. Return () (s4\<lparr>copyInProgress := True, copyIndex := 0\<rparr>)) = Throw e t"
    by (simp add: KeyArray_switchToResizedData_def Let_def s3_def split: if_splits)
  then have "prepare_shadow s3 = Throw e t"
    by (elim and_then_ThrowE) auto
  from prepare_shadow_ThrowE[OF this] False show ?thesis
    by (simp add: s3_def)
qed


lemma switchToResizedData_queue:
  assumes "KeyArray_switchToResizedData s = Return u t \<or> KeyArray_switchToResizedData s = Throw e t"
  shows "overflowQueue t = overflowQueue s"
  using assms switchToResizedData_ReturnE[of s u t] switchToResizedData_ThrowE[of s e t]
  by auto

lemma KeyArrayBase_insert_more:
  assumes "KeyArrayBase_insert s v = Return k t \<or> KeyArrayBase_insert s v = Throw e t"
  shows "KeyArrayBase.more t = KeyArrayBase.more s"
proof (cases "KeyPool_pop (kpool s)")
  case (Return k1 p)
  with assms show ?thesis
    by (auto simp: KeyArrayBase_insert_def split: if_splits)
next
  case (Throw e1 p)
  with assms show ?thesis
    by (auto simp: KeyArrayBase_insert_def split: if_splits)
next
  case Undefined
  with assms show ?thesis
    by (auto simp: KeyArrayBase_insert_def split: if_splits)
next
  case Diverges
  with assms show ?thesis
    by (auto simp: KeyArrayBase_insert_def split: if_splits)
qed

subsection \<open>Insertion on an exhausted store\<close>

lemma KeyArrayBase_insert_ReturnE:
  assumes "KeyArrayBase_insert s v = Return k t"
  shows "\<exists>p. KeyPool_pop (kpool s) = Return k p \<and> in_bounds (data s) k \<and> in_bounds (valid s) k \<and>
           \<not> KeyPool_empty (kpool s) \<and>
           t = s\<lparr>kpool := p, data := (data s)[nat k := v], valid := (valid s)[nat k := True],
                  elementCount := elementCount s + 1\<rparr>"
  using assms unfolding KeyArrayBase_insert_def
  by (cases "KeyPool_pop (kpool s)") (auto split: if_splits)

lemma KeyArrayBase_insert_ThrowE:
  assumes "KeyArrayBase_insert s v = Throw e t"
  shows "t = s \<and> e = PoolExhausted \<and> KeyPool_empty (kpool s)"
proof (cases "KeyPool_empty (kpool s)")
  case True
  with assms show ?thesis
    by (simp add: KeyArrayBase_insert_def)
next
  case False
  then have "\<exists>k p. KeyPool_pop (kpool s) = Return k p"
    by (cases "pool (kpool s)") (auto simp: KeyPool_empty_def KeyPool_pop_def)
  with assms False show ?thesis
    by (auto simp: KeyArrayBase_insert_def split: if_splits)
qed

lemma mirror_insert_ReturnE:
  assumes "mirror_insert s k v = Return u t"
  shows "lastKey t = lastKey s \<and> elementCount t = elementCount s \<and> data t = data s \<and>
     valid t = valid s \<and> kpool t = kpool s \<and> offset t = offset s \<and> name t = name s \<and>
     resizingEnabled t = resizingEnabled s \<and> newPool t = newPool s \<and>
     queueEnabled t = queueEnabled s \<and> overflowQueue t = overflowQueue s \<and>
     length (newData t) = length (newData s) \<and> length (newValid t) = length (newValid s)"
proof -
  define s1 where "s1 = s\<lparr>newData := (newData s)[nat k := v],
                      newValid := (newValid s)[nat k := True]\<rparr>"
  have "t = s \<or> t = s1 \<or> copy_frame s1 t"
    using assms continueCopyStep_frame[of s1 u t]
    by (auto simp: mirror_insert_def Let_def s1_def[symmetric] split: if_splits)
  then show ?thesis
    by (auto simp: s1_def copy_frame_def)
qed

lemma mirror_insert_no_throw: "mirror_insert s k v \<noteq> Throw e t"
  by (auto simp: mirror_insert_def Let_def continueCopyStep_no_throw)


lemma insert_store_ReturnE:
  assumes "insert_store s v = Return k t"
  shows "overflowQueue t = overflowQueue s \<and> lastKey t = lastKey s \<and>
         length (data t) = length (data s) \<and> length (valid t) = length (valid s) \<and>
         offset t = offset s \<and> resizingEnabled t = resizingEnabled s \<and>
         queueEnabled t = queueEnabled s \<and> newPool t = newPool s \<and>
         length (newData t) = length (newData s) \<and> length (newValid t) = length (newValid s) \<and>
         in_int k"
proof (cases "KeyArrayBase_insert s v")
  case (Return k1 s1)
  note b = KeyArrayBase_insert_ReturnE[OF Return]
  show ?thesis
  proof (cases "mirror_insert s1 k1 v")
    case m: (Return u s2)
    from assms Return m have "t = s2" and "in_int k"
      by (auto simp: insert_store_def split: if_splits)
    with mirror_insert_ReturnE[OF m] b show ?thesis
      by auto
  qed (use assms Return in \<open>simp_all add: insert_store_def\<close>)
qed (use assms in \<open>simp_all add: insert_store_def\<close>)

lemma insert_store_ThrowE:
  assumes "insert_store s v = Throw e t"
  shows "t = s \<and> e = PoolExhausted \<and> KeyPool_empty (kpool s)"
proof (cases "KeyArrayBase_insert s v")
  case (Return k1 s1)
  show ?thesis
  proof (cases "mirror_insert s1 k1 v")
    case m: (Return u s2)
    with assms Return show ?thesis
      by (auto simp: insert_store_def split: if_splits)
  next
    case (Throw e1 s2)
    then show ?thesis
      by (simp add: mirror_insert_no_throw)
  qed (use assms Return in \<open>simp_all add: insert_store_def\<close>)
next
  case (Throw e1 s1)
  with assms KeyArrayBase_insert_ThrowE[OF Throw] show ?thesis
    by (simp add: insert_store_def)
qed (use assms in \<open>simp_all add: insert_store_def\<close>)









lemma KeyPool_pop_in_range:
  assumes "pool_in_range p L" and "\<not> KeyPool_empty p"
  shows "\<exists>k q. KeyPool_pop p = Return k q \<and> 0 \<le> k \<and> k \<le> L \<and> pool_in_range q L \<and>
           (pool p = [] \<longrightarrow> k = nextKey p)"
proof (cases "pool p")
  case Nil
  with assms show ?thesis
    by (auto simp: KeyPool_pop_def KeyPool_empty_def pool_in_range_def)
next
  case (Cons k rest)
  with assms show ?thesis
    by (auto simp: KeyPool_pop_def pool_in_range_def)
qed



lemma length_resize: "0 \<le> n \<Longrightarrow> length (resize n d xs) = nat n"
  by (auto simp: resize_def)


lemma completeCopy_idle: "\<not> copyInProgress s \<Longrightarrow> completeCopy s = Some (Return () s)"
  by (subst completeCopy.simps) simp

lemma insert_resized_loop:
  "insert_resized s v =
     (case completeCopy s of
        None \<Rightarrow> Diverges
      | Some r \<Rightarrow>
          and_then r (\<lambda>_ s1.
            and_then (KeyArray_switchToResizedData s1) (\<lambda>_ s2. insert_store s2 v)))"
  by (cases "copyInProgress s") (simp_all add: insert_resized_def completeCopy_idle)

lemma insert_resized_ReturnE:
  assumes "insert_resized s v = Return k t"
  obtains s1 s2 where "completeCopy s = Some (Return () s1)" and "copy_frame s s1"
    and "\<not> copyInProgress s1" and "KeyArray_switchToResizedData s1 = Return () s2"
    and "insert_store s2 v = Return k t"
proof -
  from assms obtain r where r: "completeCopy s = Some r"
    by (cases "completeCopy s") (auto simp: insert_resized_loop)
  from completeCopy_Some[OF r] assms r obtain s1 where
    s1: "r = Return () s1" "copy_frame s s1" "\<not> copyInProgress s1"
    by (auto simp: insert_resized_loop)
  from assms r s1 have "and_then (KeyArray_switchToResizedData s1) (\<lambda>_ s2. insert_store s2 v) = Return k t"
    by (simp add: insert_resized_loop)
  then obtain u s2 where "KeyArray_switchToResizedData s1 = Return u s2" "insert_store s2 v = Return k t"
    by (rule and_then_ReturnE)
  with r s1 that show thesis
    by simp
qed

lemma insert_resized_ThrowE:
  assumes "insert_resized s v = Throw e t"
  obtains s1 where "completeCopy s = Some (Return () s1)" and "copy_frame s s1"
      and "\<not> copyInProgress s1" and "KeyArray_switchToResizedData s1 = Throw e t"
    | s1 s2 where "completeCopy s = Some (Return () s1)" and "copy_frame s s1"
      and "\<not> copyInProgress s1" and "KeyArray_switchToResizedData s1 = Return () s2"
      and "insert_store s2 v = Throw e t"
proof -
  from assms obtain r where r: "completeCopy s = Some r"
    by (cases "completeCopy s") (auto simp: insert_resized_loop)
  from completeCopy_Some[OF r] assms r obtain s1 where
    s1: "r = Return () s1" "copy_frame s s1" "\<not> copyInProgress s1"
    by (auto simp: insert_resized_loop)
  from assms r s1 have "and_then (KeyArray_switchToResizedData s1) (\<lambda>_ s2. insert_store s2 v) = Throw e t"
    by (simp add: insert_resized_loop)
  then show thesis
  proof (cases rule: and_then_ThrowE)
    case 1
    with r s1 that(1) show ?thesis
      by simp
  next
    case (2 u s2)
    with r s1 that(2) show ?thesis
      by simp
  qed
qed




subsection \<open>Precedence on an exhausted store\<close>




subsection \<open>One migration step for each insert\<close>




subsection \<open>Every reachable state is well formed\<close>

lemma in_int_int_of_size: "in_int (int_of_size n)"
proof -
  have "0 \<le> int n mod 4294967296" "int n mod 4294967296 < 4294967296"
    by simp_all
  then show ?thesis
    by (auto simp: int_of_size_def in_int_def INT_MIN_def INT_MAX_def Let_def)
qed

lemma int_of_size_le: "int_of_size n \<le> int n"
proof -
  have "int n mod 4294967296 \<le> int n"
    by (rule zmod_le_nonneg_dividend) simp
  then show ?thesis
    by (auto simp: int_of_size_def Let_def)
qed

lemma returning_ReturnE:
  "returning f x = Return r t \<Longrightarrow> \<exists>q. x = Return q t"
  by (cases x) auto

lemma returning_ThrowE:
  "returning f x = Throw e t \<Longrightarrow> x = Throw e t"
  by (cases x) auto

lemma KeyPool_range_not_empty: "\<not> KeyPool_empty (KeyPool_range a b)"
  by (simp add: KeyPool_range_def KeyPool_empty_def)

lemma KeyPool_default_not_empty: "\<not> KeyPool_empty KeyPool_default"
  by (simp add: KeyPool_default_def KeyPool_max_def KeyPool_empty_def)

lemma well_formed_make:
  "KeyArray_make limitKey off nm = Some (Inr s) \<Longrightarrow> well_formed s"
  by (auto simp: KeyArray_make_def well_formed_def int_ranged_def resize_def KeyPool_default_def
      KeyPool_max_def KeyPool_empty_def in_int_def split: if_splits)

lemma prepare_shadow_well_formed:
  assumes "int_ranged s"
    and "prepare_shadow s = Return u t \<or> prepare_shadow s = Throw e t"
  shows "well_formed t \<or> (t = s \<and> e = LengthError \<and> prepare_shadow s = Throw e t)"
  using assms(2)
proof
  assume r: "prepare_shadow s = Return u t"
  from prepare_shadow_ReturnE[OF r] assms(1) have "well_formed t"
    by (auto simp: well_formed_def int_ranged_def KeyPool_range_not_empty length_resize in_int_def)
  then show ?thesis ..
next
  assume "prepare_shadow s = Throw e t"
  with prepare_shadow_ThrowE[OF this] show ?thesis
    by simp
qed

lemma switchToResizedData_well_formed:
  assumes "well_formed s"
    and "KeyArray_switchToResizedData s = Return u t \<or> KeyArray_switchToResizedData s = Throw e t"
  shows "well_formed t"
proof (cases "\<not> resizingEnabled s \<or> copyInProgress s")
  case True
  with assms show ?thesis
    by (auto simp: KeyArray_switchToResizedData_def)
next
  case False
  define s3 where "s3 = s\<lparr>data := newData s, valid := newValid s, kpool := newPool s,
      lastKey := int_of_size (length (newData s)) - 1, newData := [], newValid := [],
      newPool := KeyPool_default, copyIndex := 0\<rparr>"
  have ok: "in_int (int_of_size (length (newData s)) - 1)"
    using assms(2) False
    by (auto simp: KeyArray_switchToResizedData_def Let_def split: if_splits)
  have run: "and_then (prepare_shadow s3)
      (\<lambda>_ s4. Return () (s4\<lparr>copyInProgress := True, copyIndex := 0\<rparr>)) = Return u t \<or>
     and_then (prepare_shadow s3)
      (\<lambda>_ s4. Return () (s4\<lparr>copyInProgress := True, copyIndex := 0\<rparr>)) = Throw e t"
    using assms(2) False ok
    by (simp add: KeyArray_switchToResizedData_def Let_def s3_def)
  have r3: "int_ranged s3" and p3: "\<not> KeyPool_empty (newPool s3)"
    using assms(1) ok in_int_int_of_size[of "length (newData s)"]
    by (simp_all add: well_formed_def int_ranged_def s3_def KeyPool_default_not_empty)
  show ?thesis
  proof (cases "prepare_shadow s3")
    case (Return q s4)
    with run have t: "t = s4\<lparr>copyInProgress := True, copyIndex := 0\<rparr>"
      by simp
    from prepare_shadow_well_formed[OF r3 disjI1[OF Return], of e] have "well_formed s4"
      using Return by auto
    with t show ?thesis
      by (simp add: well_formed_def int_ranged_def)
  next
    case (Throw e1 s4)
    with run have "t = s4"
      by simp
    with prepare_shadow_ThrowE[OF Throw] r3 p3 show ?thesis
      by (simp add: well_formed_def)
  qed (use run in simp_all)
qed

lemma copy_frame_well_formed:
  "copy_frame s t \<Longrightarrow> well_formed s \<Longrightarrow> well_formed t"
  by (simp add: copy_frame_def well_formed_def int_ranged_def)

lemma insert_store_well_formed:
  assumes "well_formed s"
    and "insert_store s v = Return k t \<or> insert_store s v = Throw e t"
  shows "well_formed t"
  using assms(2)
proof
  assume "insert_store s v = Return k t"
  from insert_store_ReturnE[OF this] assms(1) show ?thesis
    by (simp add: well_formed_def int_ranged_def)
next
  assume "insert_store s v = Throw e t"
  from insert_store_ThrowE[OF this] assms(1) show ?thesis
    by simp
qed

lemma KeyArray_insert_well_formed:
  assumes "well_formed s"
    and "KeyArray_insert s v = Return k t \<or> KeyArray_insert s v = Throw e t"
  shows "well_formed t"
proof (cases "KeyPool_empty (kpool s)")
  case False
  with assms(2) have "insert_store s v = Return k t \<or> insert_store s v = Throw e t"
    by (simp add: KeyArray_insert_def)
  with assms(1) show ?thesis
    by (rule insert_store_well_formed)
next
  case True
  show ?thesis
  proof (cases "resizingEnabled s")
    case re: True
    with True assms(2) consider "insert_resized s v = Return k t" | "insert_resized s v = Throw e t"
      by (auto simp: KeyArray_insert_def)
    then show ?thesis
    proof cases
      case 1
      then obtain s1 s2 where p: "copy_frame s s1" "KeyArray_switchToResizedData s1 = Return () s2"
        "insert_store s2 v = Return k t"
        by (rule insert_resized_ReturnE)
      have "well_formed s1"
        by (rule copy_frame_well_formed[OF p(1) assms(1)])
      then have "well_formed s2"
        by (rule switchToResizedData_well_formed[OF _ disjI1[OF p(2)]])
      then show ?thesis
        by (rule insert_store_well_formed[OF _ disjI1[OF p(3)]])
    next
      case 2
      then show ?thesis
      proof (cases rule: insert_resized_ThrowE)
        case (1 s1)
        have "well_formed s1"
          by (rule copy_frame_well_formed[OF 1(2) assms(1)])
        then show ?thesis
          by (rule switchToResizedData_well_formed[OF _ disjI2[OF 1(4)]])
      next
        case (2 s1 s2)
        have "well_formed s1"
          by (rule copy_frame_well_formed[OF 2(2) assms(1)])
        then have "well_formed s2"
          by (rule switchToResizedData_well_formed[OF _ disjI1[OF 2(4)]])
        then show ?thesis
          by (rule insert_store_well_formed[OF _ disjI2[OF 2(5)]])
      qed
    qed
  next
    case False
    with True assms show ?thesis
      by (auto simp: KeyArray_insert_def well_formed_def int_ranged_def split: if_splits)
  qed
qed

lemma KeyArrayBase_hasKey_ReturnE:
  "KeyArrayBase_hasKey s key = Return b t \<Longrightarrow> t = s"
  by (auto simp: KeyArrayBase_hasKey_def split: if_splits)

lemma KeyArrayBase_hasKey_no_throw:
  "KeyArrayBase_hasKey s key \<noteq> Throw e t"
  by (auto simp: KeyArrayBase_hasKey_def split: if_splits)

lemma KeyArray_hasKey_ReturnE:
  "KeyArray_hasKey s key = Return b t \<Longrightarrow> t = s"
  by (auto simp: KeyArray_hasKey_def dest: KeyArrayBase_hasKey_ReturnE split: if_splits)

lemma KeyArray_hasKey_no_throw:
  "KeyArray_hasKey s key \<noteq> Throw e t"
  by (auto simp: KeyArray_hasKey_def KeyArrayBase_hasKey_no_throw split: if_splits)

lemma KeyArrayBase_remove_ThrowE:
  assumes "KeyArrayBase_remove KeyArray_hasKey s key = Throw e t"
  shows "t = s \<and> e = KeyNotFound"
proof (cases "KeyArray_hasKey s key")
  case (Return b s1)
  with assms KeyArray_hasKey_ReturnE[OF Return] show ?thesis
    by (auto simp: KeyArrayBase_remove_def split: if_splits)
next
  case (Throw e1 s1)
  then show ?thesis
    by (simp add: KeyArray_hasKey_no_throw)
qed (use assms in \<open>simp_all add: KeyArrayBase_remove_def\<close>)

lemma KeyArrayBase_remove_ReturnE:
  assumes "KeyArrayBase_remove KeyArray_hasKey s key = Return u t"
  shows "t = s\<lparr>valid := (valid s)[nat key := False], elementCount := elementCount s - 1,
                kpool := KeyPool_push (kpool s) key\<rparr>"
proof (cases "KeyArray_hasKey s key")
  case (Return b s1)
  with assms KeyArray_hasKey_ReturnE[OF Return] show ?thesis
    by (auto simp: KeyArrayBase_remove_def split: if_splits)
qed (use assms in \<open>simp_all add: KeyArrayBase_remove_def\<close>)

lemma KeyArray_remove_ThrowE:
  assumes "KeyArray_remove s key = Throw e t"
  shows "t = s \<and> (e = KeyNotFound \<or> e = InvalidKey)"
proof (cases "KeyArrayBase_remove KeyArray_hasKey s (key - offset s)")
  case (Return u s1)
  with assms show ?thesis
    by (auto simp: KeyArray_remove_def Let_def split: if_splits)
next
  case (Throw e1 s1)
  with assms KeyArrayBase_remove_ThrowE[OF Throw] show ?thesis
    by (auto simp: KeyArray_remove_def Let_def split: if_splits)
qed (use assms in \<open>auto simp: KeyArray_remove_def Let_def split: if_splits\<close>)

lemma KeyArray_remove_ReturnE:
  assumes "KeyArray_remove s key = Return u t"
  shows "lastKey t = lastKey s \<and> offset t = offset s \<and> data t = data s \<and>
         newData t = newData s \<and> newPool t = newPool s"
proof (cases "KeyArrayBase_remove KeyArray_hasKey s (key - offset s)")
  case (Return u1 s1)
  with assms KeyArrayBase_remove_ReturnE[OF Return] show ?thesis
    by (auto simp: KeyArray_remove_def Let_def split: if_splits)
qed (use assms in \<open>auto simp: KeyArray_remove_def Let_def split: if_splits\<close>)

lemma KeyArrayBase_at_ThrowE:
  assumes "KeyArrayBase_at KeyArray_hasKey s key = Throw e t"
  shows "t = s \<and> e = KeyNotFound"
proof (cases "KeyArray_hasKey s key")
  case (Return b s1)
  with assms KeyArray_hasKey_ReturnE[OF Return] show ?thesis
    by (auto simp: KeyArrayBase_at_def split: if_splits)
next
  case (Throw e1 s1)
  then show ?thesis
    by (simp add: KeyArray_hasKey_no_throw)
qed (use assms in \<open>simp_all add: KeyArrayBase_at_def\<close>)

lemma KeyArrayBase_at_ReturnE:
  assumes "KeyArrayBase_at KeyArray_hasKey s key = Return x t"
  shows "t = s \<and> KeyArray_hasKey s key = Return True s \<and> in_bounds (data s) key \<and>
         x = data s ! nat key"
proof (cases "KeyArray_hasKey s key")
  case (Return b s1)
  with assms KeyArray_hasKey_ReturnE[OF Return] show ?thesis
    by (auto simp: KeyArrayBase_at_def split: if_splits)
qed (use assms in \<open>simp_all add: KeyArrayBase_at_def\<close>)

lemma KeyArray_at_ThrowE:
  assumes "KeyArray_at s key = Throw e t"
  shows "t = s \<and> (e = KeyNotFound \<or> e = InvalidKey)"
  using assms KeyArrayBase_at_ThrowE[of s "key - offset s" e t]
  by (auto simp: KeyArray_at_def split: if_splits)

lemma KeyArray_at_ReturnE:
  assumes "KeyArray_at s key = Return x t"
  shows "t = s"
  using assms KeyArrayBase_at_ReturnE[of s "key - offset s" x t]
  by (auto simp: KeyArray_at_def split: if_splits)

lemma KeyArray_at_assign_ThrowE:
  assumes "KeyArray_at_assign s key v = Throw e t"
  shows "t = s \<and> (e = KeyNotFound \<or> e = InvalidKey)"
proof (cases "KeyArray_at s key")
  case (Throw e1 s1)
  with assms KeyArray_at_ThrowE[OF Throw] show ?thesis
    by (simp add: KeyArray_at_assign_def)
qed (use assms in \<open>simp_all add: KeyArray_at_assign_def\<close>)

lemma KeyArray_at_assign_ReturnE:
  assumes "KeyArray_at_assign s key v = Return u t"
  shows "t = s\<lparr>data := (data s)[nat (key - offset s) := v]\<rparr>"
proof (cases "KeyArray_at s key")
  case (Return x s1)
  with assms KeyArray_at_ReturnE[OF Return] show ?thesis
    by (simp add: KeyArray_at_assign_def)
qed (use assms in \<open>simp_all add: KeyArray_at_assign_def\<close>)

lemma KeyArray_swap_ThrowE:
  assumes "KeyArray_swap s key1 key2 = Throw e t"
  shows "t = s \<and> e = InvalidKey"
proof (cases "KeyArray_hasKey s key1")
  case r1: (Return b1 s1)
  note s1 = KeyArray_hasKey_ReturnE[OF r1]
  show ?thesis
  proof (cases "KeyArray_hasKey s key2")
    case r2: (Return b2 s2)
    note s2 = KeyArray_hasKey_ReturnE[OF r2]
    from assms r1 r2 s1 s2 show ?thesis
      by (auto simp: KeyArray_swap_def split: if_splits)
  next
    case (Throw e2 s2)
    then show ?thesis
      by (simp add: KeyArray_hasKey_no_throw)
  qed (use assms r1 s1 in \<open>auto simp: KeyArray_swap_def split: if_splits\<close>)
next
  case (Throw e1 s1)
  then show ?thesis
    by (simp add: KeyArray_hasKey_no_throw)
qed (use assms in \<open>simp_all add: KeyArray_swap_def\<close>)

lemma KeyArray_swap_ReturnE:
  assumes "KeyArray_swap s key1 key2 = Return u t"
  shows "\<exists>xs. t = s\<lparr>data := xs\<rparr> \<and> length xs = length (data s)"
proof (cases "KeyArray_hasKey s key1")
  case r1: (Return b1 s1)
  note s1 = KeyArray_hasKey_ReturnE[OF r1]
  show ?thesis
  proof (cases "KeyArray_hasKey s key2")
    case r2: (Return b2 s2)
    note s2 = KeyArray_hasKey_ReturnE[OF r2]
    from assms r1 r2 s1 s2 show ?thesis
      by (auto simp: KeyArray_swap_def split: if_splits)
  qed (use assms r1 s1 in \<open>auto simp: KeyArray_swap_def split: if_splits\<close>)
qed (use assms in \<open>simp_all add: KeyArray_swap_def\<close>)

lemma read_int_in_int: "read_int st = (Some v, st1) \<Longrightarrow> in_int v"
  by (cases st)
    (auto simp: read_int_def read_number_def in_int_def INT_MIN_def INT_MAX_def Let_def
      split: if_splits)

lemma step_well_formed:
  assumes "well_formed s" and "step c s = Return r t \<or> step c s = Throw e t"
  shows "well_formed t"
proof (cases c)
  case (Insert v)
  with assms(2) have "(\<exists>k. KeyArray_insert s v = Return k t) \<or> KeyArray_insert s v = Throw e t"
    by (auto dest: returning_ReturnE returning_ThrowE)
  then show ?thesis
    using KeyArray_insert_well_formed[OF assms(1)] by blast
next
  case (Remove key)
  with assms(2) have "(\<exists>u. KeyArray_remove s key = Return u t) \<or> KeyArray_remove s key = Throw e t"
    by (auto dest: returning_ReturnE returning_ThrowE)
  then show ?thesis
    using assms(1) by (auto simp: well_formed_def int_ranged_def dest!: KeyArray_remove_ReturnE KeyArray_remove_ThrowE)
next
  case (HasKey key)
  with assms(2) have "\<exists>b. KeyArray_hasKey s key = Return b t"
    by (auto dest: returning_ReturnE returning_ThrowE simp: KeyArray_hasKey_no_throw)
  then show ?thesis
    using assms(1) by (auto dest: KeyArray_hasKey_ReturnE)
next
  case (Contains v)
  with assms(2) have "t = s"
    by (auto simp: KeyArray_contains_def KeyArrayBase_contains_def split: option.splits)
  with assms(1) show ?thesis by simp
next
  case (At key)
  with assms(2) have "(\<exists>x. KeyArray_at s key = Return x t) \<or> KeyArray_at s key = Throw e t"
    by (auto dest: returning_ReturnE returning_ThrowE)
  then show ?thesis
    using assms(1) by (auto dest: KeyArray_at_ReturnE KeyArray_at_ThrowE)
next
  case (At_assign key v)
  with assms(2) have "(\<exists>u. KeyArray_at_assign s key v = Return u t) \<or> KeyArray_at_assign s key v = Throw e t"
    by (auto dest: returning_ReturnE returning_ThrowE)
  then show ?thesis
    using assms(1) by (auto simp: well_formed_def int_ranged_def dest!: KeyArray_at_assign_ReturnE KeyArray_at_assign_ThrowE)
next
  case Clear
  with assms show ?thesis
    by (auto simp: KeyArray_clear_def KeyArrayBase_clear_def well_formed_def int_ranged_def
        length_resize in_int_def KeyPool_default_not_empty split: if_splits)
next
  case EnableDynamicResizing
  show ?thesis
  proof (cases "resizingEnabled s")
    case True
    with EnableDynamicResizing assms show ?thesis
      by (auto simp: KeyArray_enableDynamicResizing_def)
  next
    case off: False
    define s1 where "s1 = s\<lparr>resizingEnabled := True\<rparr>"
    have wf1: "well_formed s1"
      using assms(1) by (simp add: s1_def well_formed_def int_ranged_def)
    show ?thesis
    proof (cases "copyIndex s = offset s")
      case False
      with off EnableDynamicResizing assms(2) have "t = s1\<lparr>copyInProgress := True\<rparr>"
        by (auto simp: KeyArray_enableDynamicResizing_def Let_def s1_def)
      with wf1 show ?thesis
        by (simp add: well_formed_def int_ranged_def)
    next
      case True
      with off EnableDynamicResizing assms(2)
      have run: "and_then (prepare_shadow s1) (\<lambda>_ s2. Return () (s2\<lparr>copyInProgress := True\<rparr>)) = Return () t \<or>
          and_then (prepare_shadow s1) (\<lambda>_ s2. Return () (s2\<lparr>copyInProgress := True\<rparr>)) = Throw e t"
        by (auto simp: KeyArray_enableDynamicResizing_def Let_def s1_def
            dest: returning_ReturnE returning_ThrowE)
      have r1: "int_ranged s1"
        using wf1 by (simp add: well_formed_def)
      show ?thesis
      proof (cases "prepare_shadow s1")
        case (Return q s2)
        with run have t: "t = s2\<lparr>copyInProgress := True\<rparr>"
          by simp
        from prepare_shadow_well_formed[OF r1 disjI1[OF Return], of e] have "well_formed s2"
          using Return by auto
        with t show ?thesis
          by (simp add: well_formed_def int_ranged_def)
      next
        case (Throw e1 s2)
        with run have "t = s2"
          by simp
        with prepare_shadow_ThrowE[OF Throw] wf1 show ?thesis
          by simp
      qed (use run in simp_all)
    qed
  qed
next
  case (DisableDynamicResizing purgeData)
  with assms show ?thesis
    by (auto simp: KeyArray_disableDynamicResizing_def well_formed_def int_ranged_def Let_def
        KeyPool_default_not_empty split: if_splits)
next
  case ContinueCopyStep
  with assms(2) have "\<exists>u. KeyArray_continueCopyStep s = Return u t"
    by (auto dest: returning_ReturnE returning_ThrowE simp: continueCopyStep_no_throw)
  then show ?thesis
    using assms(1) by (auto dest!: continueCopyStep_frame intro: copy_frame_well_formed)
next
  case SwitchToResizedData
  with assms(2) have "(\<exists>u. KeyArray_switchToResizedData s = Return u t) \<or>
      KeyArray_switchToResizedData s = Throw e t"
    by (auto dest: returning_ReturnE returning_ThrowE)
  then show ?thesis
    using switchToResizedData_well_formed[OF assms(1)] by blast
next
  case EnableQueue
  with assms show ?thesis
    by (auto simp: KeyArray_enableQueue_def well_formed_def int_ranged_def)
next
  case DisableQueue
  with assms show ?thesis
    by (auto simp: KeyArray_disableQueue_def well_formed_def int_ranged_def)
next
  case ClearQueue
  with assms show ?thesis
    by (auto simp: KeyArray_clearQueue_def well_formed_def int_ranged_def)
next
  case (GetQueue_assign q)
  with assms show ?thesis
    by (auto simp: well_formed_def int_ranged_def)
next
  case (SetName newName)
  with assms show ?thesis
    by (auto simp: KeyArray_setName_def well_formed_def int_ranged_def)
next
  case (Swap key1 key2)
  with assms(2) have "(\<exists>u. KeyArray_swap s key1 key2 = Return u t) \<or> KeyArray_swap s key1 key2 = Throw e t"
    by (auto dest: returning_ReturnE returning_ThrowE)
  then show ?thesis
    using assms(1) by (auto simp: well_formed_def int_ranged_def dest!: KeyArray_swap_ReturnE KeyArray_swap_ThrowE)
next
  case (Iterator_assign i v)
  with assms show ?thesis
    by (auto simp: well_formed_def int_ranged_def split: if_splits)
next
  case Size
  with assms show ?thesis by auto
next
  case Empty
  with assms show ?thesis by auto
next
  case GetQueueSize
  with assms show ?thesis by auto
next
  case IsDynamicResizingEnabled
  with assms show ?thesis by auto
qed

lemma load_entries_frame:
  "load_entries st val s = Return st1 t \<or> load_entries st val s = Throw e t \<Longrightarrow> loaded_frame s t"
proof (induction st val s arbitrary: st1 t rule: load_entries.induct)
  case (1 st val s)
  obtain rk sta where rk: "(rk, sta) = read_int st"
    by (cases "read_int st") auto
  note unfold = "1.prems"[unfolded load_entries.simps[of st val s] rk[symmetric], simplified]
  show ?case
  proof (cases rk)
    case None
    with unfold show ?thesis
      by (simp add: loaded_frame_def)
  next
    case (Some key)
    show ?thesis
    proof (cases "snd st \<or> snd sta")
      case True
      with Some unfold show ?thesis
        by (auto simp: loaded_frame_def)
    next
      case nofail: False
      show ?thesis
      proof (cases "key = - 1")
        case True
        with Some nofail unfold show ?thesis
          by (auto simp: loaded_frame_def)
      next
        case key: False
        obtain rv stb where rv: "(rv, stb) = read_int sta"
          by (cases "read_int sta") auto
        define val1 where "val1 = (case rv of None \<Rightarrow> val | Some v \<Rightarrow> Some v)"
        define actualIndex where "actualIndex = key - offset s"
        note unfold2 = unfold[unfolded Some, simplified, unfolded rv[symmetric], simplified]
        show ?thesis
        proof (cases "in_int actualIndex")
          case False
          with nofail key unfold2 show ?thesis
            by (auto simp: actualIndex_def Let_def)
        next
          case rng: True
          then have nn: "\<not> \<not> in_int actualIndex"
            by simp
        show ?thesis
        proof (cases "0 \<le> actualIndex \<and> actualIndex < int_of_size (length (data s))")
          case inr: True
          show ?thesis
          proof (cases val1)
            case None
            with nofail key rng inr unfold2 show ?thesis
              by (auto simp: val1_def actualIndex_def Let_def)
          next
            case v: (Some v)
            show ?thesis
            proof (cases "in_bounds (valid s) actualIndex")
              case False
              with nofail key rng inr v unfold2 show ?thesis
                by (auto simp: val1_def actualIndex_def Let_def)
            next
              case True
              define s1 where "s1 = s\<lparr>data := (data s)[nat actualIndex := v],
                                   valid := (valid s)[nat actualIndex := True],
                                   elementCount := elementCount s + 1\<rparr>"
              have rec: "load_entries stb val1 s1 = Return st1 t \<or> load_entries stb val1 s1 = Throw e t"
                using nofail key rng inr v True unfold2
                by (auto simp: val1_def actualIndex_def s1_def Let_def)
              have "loaded_frame s1 t"
                using "1.IH"(1)[OF rk Some nofail key rv val1_def actualIndex_def nn inr v True]
                  rec unfolding s1_def by simp
              then show ?thesis
                by (simp add: s1_def loaded_frame_def)
            qed
          qed
        next
          case outr: False
          have rec: "load_entries stb val1 s = Return st1 t \<or> load_entries stb val1 s = Throw e t"
            using nofail key rng outr unfold2
            by (auto simp: val1_def actualIndex_def Let_def)
          show ?thesis
            using "1.IH"(2)[OF rk Some nofail key rv val1_def actualIndex_def nn outr] rec
            by simp
        qed
        qed
      qed
    qed
  qed
qed

lemma load_queue_frame:
  "load_queue st s = (st1, t) \<Longrightarrow> \<exists>q. t = s\<lparr>overflowQueue := q\<rparr>"
proof (induction st s arbitrary: st1 t rule: load_queue.induct)
  case (1 st s)
  obtain rk sta where rk: "(rk, sta) = read_int st"
    by (cases "read_int st") auto
  note unfold = "1.prems"[unfolded load_queue.simps[of st s] rk[symmetric], simplified]
  show ?case
  proof (cases rk)
    case None
    with unfold have "t = s" by simp
    then have "t = s\<lparr>overflowQueue := overflowQueue s\<rparr>" by simp
    then show ?thesis ..
  next
    case (Some key)
    show ?thesis
    proof (cases "snd st \<or> snd sta")
      case True
      with Some unfold have "t = s" by auto
      then have "t = s\<lparr>overflowQueue := overflowQueue s\<rparr>" by simp
      then show ?thesis ..
    next
      case False
      with Some unfold have "load_queue sta (s\<lparr>overflowQueue := overflowQueue s @ [key]\<rparr>) = (st1, t)"
        by auto
      from "1.IH"[OF rk Some False this] obtain q where
        "t = s\<lparr>overflowQueue := overflowQueue s @ [key]\<rparr>\<lparr>overflowQueue := q\<rparr>"
        by auto
      then have "t = s\<lparr>overflowQueue := q\<rparr>" by simp
      then show ?thesis ..
    qed
  qed
qed

lemma loadFromFile_well_formed:
  assumes "well_formed s" and "loads s t"
  shows "well_formed t"
proof -
  from assms(2) obtain src e where
    out: "KeyArray_loadFromFile s src = Return () t \<or> KeyArray_loadFromFile s src = Throw e t"
    by (auto simp: loads_def)
  show ?thesis
  proof (cases src)
    case None
    with out assms(1) show ?thesis
      by (auto simp: KeyArray_loadFromFile_def)
  next
    case (Some chars)
    define st0 where "st0 = getline (chars, False)"
    obtain rname st1 where r1: "read_word (snd (read_word st0)) = (rname, st1)"
      by (cases "read_word (snd (read_word st0))")
    obtain roffset st2 where r2: "read_int (snd (read_word st1)) = (roffset, st2)"
      by (cases "read_int (snd (read_word st1))")
    obtain rlastKey st3 where r3: "read_int (snd (read_word st2)) = (rlastKey, st3)"
      by (cases "read_int (snd (read_word st2))")
    define s1 where "s1 = s\<lparr>name := assigned rname (name s),
                      offset := assigned roffset (offset s),
                      lastKey := assigned rlastKey (lastKey s)\<rparr>"
    have eff: "in_int (lastKey s1 + 1)"
      using out Some r1 r2 r3
      by (auto simp: KeyArray_loadFromFile_def Let_def st0_def s1_def split: if_splits)
    have rng1: "in_int (offset s1)" "in_int (lastKey s1)"
      using assms(1) r2 r3
      by (auto simp: s1_def assigned_def well_formed_def int_ranged_def
          dest: read_int_in_int split: option.splits)
    show ?thesis
    proof (cases "lastKey s1 + 1 < 0")
      case True
      with out Some r1 r2 r3 eff have "t = s1"
        by (auto simp: KeyArray_loadFromFile_def Let_def st0_def s1_def)
      moreover have "well_formed s1"
        using assms(1) eff rng1 by (simp add: well_formed_def int_ranged_def s1_def)
      ultimately show ?thesis
        by simp
    next
      case False
      define s2 where "s2 = s1\<lparr>data := resize (lastKey s1 + 1) default (data s1),
                           valid := resize (lastKey s1 + 1) False (valid s1),
                           elementCount := 0,
                           kpool := KeyPool_reset (kpool s1) (offset s1) (lastKey s1)\<rparr>"
      obtain rresizing st4 where r4: "read_bool (snd (read_word st3)) = (rresizing, st4)"
        by (cases "read_bool (snd (read_word st3))")
      obtain rqueue st5 where r5: "read_bool (snd (read_word st4)) = (rqueue, st5)"
        by (cases "read_bool (snd (read_word st4))")
      define st7 where "st7 = snd (read_word (read_size_t (snd (read_word st5))))"
      define s3 where "s3 = s2\<lparr>resizingEnabled := assigned rresizing (resizingEnabled s2),
                           queueEnabled := assigned rqueue (queueEnabled s2)\<rparr>"
      have wf3: "well_formed s3"
        using assms(1) False eff rng1
        by (simp add: well_formed_def int_ranged_def s3_def s2_def s1_def length_resize in_int_def)
      from out Some r1 r2 r3 r4 r5 False eff
      have run: "and_then (load_entries st7 None s3) (\<lambda>st8 s4.
                    Return () (snd (load_queue (snd (read_word st8)) s4))) = Return () t
            \<or> and_then (load_entries st7 None s3) (\<lambda>st8 s4.
                    Return () (snd (load_queue (snd (read_word st8)) s4))) = Throw e t"
        by (auto simp: KeyArray_loadFromFile_def Let_def st0_def s1_def s2_def s3_def st7_def)
      show ?thesis
      proof (cases "load_entries st7 None s3")
        case (Return st8 s4)
        then have fr: "loaded_frame s3 s4"
          using load_entries_frame[of st7 None s3 st8 s4] by simp
        obtain st9 s5 where q: "load_queue (snd (read_word st8)) s4 = (st9, s5)"
          by (cases "load_queue (snd (read_word st8)) s4")
        from load_queue_frame[OF q] obtain qs where "s5 = s4\<lparr>overflowQueue := qs\<rparr>"
          by auto
        moreover from run Return q have "t = s5"
          by simp
        ultimately show ?thesis
          using wf3 fr by (simp add: well_formed_def int_ranged_def loaded_frame_def)
      next
        case (Throw e1 s4)
        then have fr: "loaded_frame s3 s4"
          using load_entries_frame[of st7 None s3 _ s4 e1] by simp
        moreover from run Throw have "t = s4"
          by simp
        ultimately show ?thesis
          using wf3 by (simp add: well_formed_def int_ranged_def loaded_frame_def)
      qed (use run in simp_all)
    qed
  qed
qed

lemma reachable_well_formed:
  assumes "reachable io s" and "\<And>s t. well_formed s \<Longrightarrow> io s t \<Longrightarrow> well_formed t"
  shows "well_formed s"
  using assms(1)
proof (induction rule: reachable.induct)
  case (named nm s)
  then show ?case
    by (auto simp: KeyArray_named_def intro: well_formed_make)
next
  case (limit limitKey nm s)
  then show ?case
    by (auto simp: KeyArray_limit_def intro: well_formed_make)
next
  case (range a b nm s)
  then show ?case
    by (auto simp: KeyArray_range_def intro: well_formed_make split: if_splits)
next
  case (returned s c r t)
  then show ?case
    using step_well_formed[of s c r t] by simp
next
  case (thrown s c e t)
  then show ?case
    using step_well_formed[of s c _ t e] by simp
next
  case (loaded s t)
  then show ?case
    using assms(2) by simp
qed

lemma reachable_no_loads_well_formed: "reachable no_loads s \<Longrightarrow> well_formed s"
  by (erule reachable_well_formed) (simp add: no_loads_def)

lemma reachable_loads_well_formed: "reachable loads s \<Longrightarrow> well_formed s"
  by (erule reachable_well_formed) (rule loadFromFile_well_formed)

lemma reachable_run:
  "reachable io s \<Longrightarrow> run cs s = Some (rs, t) \<Longrightarrow> reachable io t"
proof (induction cs arbitrary: s rs)
  case Nil
  then show ?case by simp
next
  case (Cons c cs)
  show ?case
  proof (cases "step c s")
    case (Return r s1)
    have "reachable io s1"
      by (rule reachable.returned[OF Cons.prems(1) Return])
    moreover from Cons.prems(2) Return obtain rs1 where "run cs s1 = Some (rs1, t)"
      by auto
    ultimately show ?thesis
      by (rule Cons.IH)
  next
    case (Throw e s1)
    have "reachable io s1"
      by (rule reachable.thrown[OF Cons.prems(1) Throw])
    moreover from Cons.prems(2) Throw obtain rs1 where "run cs s1 = Some (rs1, t)"
      by auto
    ultimately show ?thesis
      by (rule Cons.IH)
  next
    case Undefined
    with Cons.prems(2) show ?thesis by simp
  next
    case Diverges
    with Cons.prems(2) show ?thesis by simp
  qed
qed

lemma reachable_state_after_limit:
  assumes "state_after (KeyArray_limit limitKey nm) cs = Some t"
  shows "reachable io t"
proof -
  from assms obtain s rs where made: "KeyArray_limit limitKey nm = Some (Inr s)"
    and r: "run cs s = Some (rs, t)"
    by (auto simp: state_after_def run_from_def split: option.splits sum.splits)
  show ?thesis
    by (rule reachable_run[OF reachable.limit[OF made] r])
qed

subsection \<open>Failed calls leave the state unchanged\<close>

lemma KeyArray_insert_PoolExhausted:
  assumes "well_formed s" and "KeyArray_insert s v = Throw PoolExhausted t"
  shows "t = s"
proof (cases "KeyPool_empty (kpool s)")
  case False
  with assms(2) have "insert_store s v = Throw PoolExhausted t"
    by (simp add: KeyArray_insert_def)
  then show ?thesis
    by (simp add: insert_store_ThrowE)
next
  case True
  show ?thesis
  proof (cases "resizingEnabled s")
    case False
    with True assms(2) show ?thesis
      by (auto simp: KeyArray_insert_def split: if_splits)
  next
    case re: True
    with True assms(2) have "insert_resized s v = Throw PoolExhausted t"
      by (simp add: KeyArray_insert_def)
    then show ?thesis
    proof (cases rule: insert_resized_ThrowE)
      case (1 s1)
      from switchToResizedData_ThrowE[OF 1(4)] show ?thesis
        by simp
    next
      case (2 s1 s2)
      from 2(5) have "KeyPool_empty (kpool s2)"
        by (simp add: insert_store_ThrowE)
      moreover have "kpool s2 = newPool s"
        using switchToResizedData_ReturnE[OF 2(4)] 2(2) by (simp add: copy_frame_def)
      ultimately show ?thesis
        using assms(1) by (simp add: well_formed_def)
    qed
  qed
qed

text \<open>
  Claim C9.  In a reachable state an \<^verbatim>\<open>insert\<close> that throws \<open>PoolExhausted\<close> leaves the state
  as it was.  In any state, \<^verbatim>\<open>remove\<close>, \<^verbatim>\<open>at\<close> (also when assigned through) and \<^verbatim>\<open>swap\<close> throw
  nothing but \<open>KeyNotFound\<close> or \<open>InvalidKey\<close> and then leave the state as it was, and a
  \<^verbatim>\<open>switchToResizedData\<close> that throws \<open>ResizeNotReady\<close> leaves the state as it was.
\<close>

theorem failure_atomicity:
  "(reachable no_loads s \<and> KeyArray_insert s v = Throw PoolExhausted t \<longrightarrow> t = s) \<and>
   (reachable loads si \<and> KeyArray_insert si vi = Throw PoolExhausted ti \<longrightarrow> ti = si) \<and>
   (KeyArray_remove s key = Throw e t \<longrightarrow> t = s \<and> (e = KeyNotFound \<or> e = InvalidKey)) \<and>
   (KeyArray_at s key = Throw e t \<longrightarrow> t = s \<and> (e = KeyNotFound \<or> e = InvalidKey)) \<and>
   (KeyArray_at_assign s key v = Throw e t \<longrightarrow> t = s \<and> (e = KeyNotFound \<or> e = InvalidKey)) \<and>
   (KeyArray_swap s key key2 = Throw e t \<longrightarrow> t = s \<and> e = InvalidKey) \<and>
   (KeyArray_switchToResizedData s = Throw ResizeNotReady t \<longrightarrow> t = s)"
proof (intro conjI impI)
  assume "reachable no_loads s \<and> KeyArray_insert s v = Throw PoolExhausted t"
  then show "t = s"
    using KeyArray_insert_PoolExhausted[OF reachable_no_loads_well_formed] by blast
next
  assume "reachable loads si \<and> KeyArray_insert si vi = Throw PoolExhausted ti"
  then show "ti = si"
    using KeyArray_insert_PoolExhausted[OF reachable_loads_well_formed] by blast
next
  assume a: "KeyArray_remove s key = Throw e t"
  from KeyArray_remove_ThrowE[OF a] show "t = s" and "e = KeyNotFound \<or> e = InvalidKey"
    by simp_all
next
  assume a: "KeyArray_at s key = Throw e t"
  from KeyArray_at_ThrowE[OF a] show "t = s" and "e = KeyNotFound \<or> e = InvalidKey"
    by simp_all
next
  assume a: "KeyArray_at_assign s key v = Throw e t"
  from KeyArray_at_assign_ThrowE[OF a] show "t = s" and "e = KeyNotFound \<or> e = InvalidKey"
    by simp_all
next
  assume a: "KeyArray_swap s key key2 = Throw e t"
  from KeyArray_swap_ThrowE[OF a] show "t = s" and "e = InvalidKey"
    by simp_all
next
  assume "KeyArray_switchToResizedData s = Throw ResizeNotReady t"
  from switchToResizedData_ThrowE[OF this] show "t = s"
    by simp
qed

theorem failure_atomicity_witness:
  "reachable no_loads (the (state_after (KeyArray_limit 1 []) [Insert (1::int)])) \<and>
   KeyArray_insert (the (state_after (KeyArray_limit 1 []) [Insert (1::int)])) 7 =
     Throw PoolExhausted (the (state_after (KeyArray_limit 1 []) [Insert (1::int)])) \<and>
   KeyArray_remove (the (state_after (KeyArray_limit 1 []) [Insert (1::int)])) 5 =
     Throw InvalidKey (the (state_after (KeyArray_limit 1 []) [Insert (1::int)])) \<and>
   KeyArray_at (the (state_after (KeyArray_limit 1 []) [Insert (1::int)])) 5 =
     Throw InvalidKey (the (state_after (KeyArray_limit 1 []) [Insert (1::int)])) \<and>
   KeyArray_swap (the (state_after (KeyArray_limit 1 []) [Insert (1::int)])) 0 1 =
     Throw InvalidKey (the (state_after (KeyArray_limit 1 []) [Insert (1::int)])) \<and>
   KeyArray_switchToResizedData (the (state_after (KeyArray_limit 1 []) [Insert (1::int)])) =
     Throw ResizeNotReady (the (state_after (KeyArray_limit 1 []) [Insert (1::int)])) \<and>
   KeyArray_remove (the (state_after (KeyArray_limit 2 []) [Insert (1::int)])) 1 =
     Throw KeyNotFound (the (state_after (KeyArray_limit 2 []) [Insert (1::int)])) \<and>
   KeyArray_remove (the (state_after (KeyArray_range 5 10 []) [Insert (1::int)])) 5 =
     Throw KeyNotFound (the (state_after (KeyArray_range 5 10 []) [Insert (1::int)])) \<and>
   KeyArray_at (the (state_after (KeyArray_range 5 10 []) [Insert (1::int)])) 5 =
     Throw KeyNotFound (the (state_after (KeyArray_range 5 10 []) [Insert (1::int)]))"
proof -
  define Q where "Q = the (state_after (KeyArray_range 5 10 []) [Insert (1::int)])"
  define Z :: "int KeyArray" where
    "Z = \<lparr>lastKey = 4, elementCount = 1, data = [1, 0, 0, 0, 0],
      valid = [True, False, False, False, False],
      kpool = \<lparr>nextKey = 1, maxKey = 4, pool = []\<rparr>, offset = 5, name = [],
      resizingEnabled = False, copyInProgress = False, copyIndex = 0,
      newData = [], newValid = [],
      newPool = \<lparr>nextKey = 0, maxKey = 99, pool = []\<rparr>, queueEnabled = False,
      overflowQueue = []\<rparr>"
  have c7: "KeyArray_remove Q 5 = Throw KeyNotFound Z"
    and c8: "KeyArray_at Q 5 = Throw KeyNotFound Z"
    unfolding Q_def Z_def by code_simp+
  define S where "S = the (state_after (KeyArray_limit 1 []) [Insert (1::int)])"
  define R where "R = the (state_after (KeyArray_limit 2 []) [Insert (1::int)])"
  define X :: "int KeyArray" where
    "X = \<lparr>lastKey = 0, elementCount = 1, data = [1], valid = [True],
      kpool = \<lparr>nextKey = 1, maxKey = 0, pool = []\<rparr>, offset = 0, name = [],
      resizingEnabled = False, copyInProgress = False, copyIndex = 0,
      newData = [], newValid = [],
      newPool = \<lparr>nextKey = 0, maxKey = 99, pool = []\<rparr>, queueEnabled = False,
      overflowQueue = []\<rparr>"
  define Y :: "int KeyArray" where
    "Y = \<lparr>lastKey = 1, elementCount = 1, data = [1, 0], valid = [True, False],
      kpool = \<lparr>nextKey = 1, maxKey = 1, pool = []\<rparr>, offset = 0, name = [],
      resizingEnabled = False, copyInProgress = False, copyIndex = 0,
      newData = [], newValid = [],
      newPool = \<lparr>nextKey = 0, maxKey = 99, pool = []\<rparr>, queueEnabled = False,
      overflowQueue = []\<rparr>"
  have S: "state_after (KeyArray_limit 1 []) [Insert (1::int)] = Some X"
    unfolding X_def by code_simp
  have rS: "reachable no_loads S"
    unfolding S_def by (rule reachable_state_after_limit[of 1 "[]" "[Insert 1]"]) (simp add: S)
  have c1: "KeyArray_insert S 7 = Throw PoolExhausted X"
    and c2: "KeyArray_remove S 5 = Throw InvalidKey X"
    and c3: "KeyArray_at S 5 = Throw InvalidKey X"
    and c4: "KeyArray_swap S 0 1 = Throw InvalidKey X"
    and c5: "KeyArray_switchToResizedData S = Throw ResizeNotReady X"
    unfolding S_def X_def by code_simp+
  have c6: "KeyArray_remove R 1 = Throw KeyNotFound Y"
    unfolding R_def Y_def by code_simp
  note at_S = failure_atomicity[where s = S and si = X]
  note at_R = failure_atomicity[where s = R and si = X]
  note at_Q = failure_atomicity[where s = Q and si = X]
  have "X = S"
    using at_S[where v = 7 and t = X] rS c1 by blast
  moreover have "Y = R"
    using at_R[where key = 1 and e = KeyNotFound and t = Y] c6 by blast
  moreover have "Z = Q"
    using at_Q[where key = 5 and e = KeyNotFound and t = Z] c7 by blast
  ultimately show ?thesis
    using rS c1 c2 c3 c4 c5 c6 c7 c8
    unfolding S_def[symmetric] R_def[symmetric] Q_def[symmetric]
    by simp
qed

subsection \<open>The range of \<^verbatim>\<open>int\<close> in the base class\<close>

lemma reachable_int_ranged:
  "reachable no_loads s \<Longrightarrow> int_ranged s" "reachable loads si \<Longrightarrow> int_ranged si"
  using reachable_no_loads_well_formed[of s] reachable_loads_well_formed[of si]
  by (simp_all add: well_formed_def)

lemma frontier_overflow_undefined:
  assumes "int (length (data s)) \<le> INT_MAX" and "pool (kpool s) = []"
    and "nextKey (kpool s) \<le> maxKey (kpool s)" and "\<not> in_int (nextKey (kpool s) + 1)"
  shows "KeyArrayBase_insert s v = Undefined"
  using assms
  by (auto simp: KeyArrayBase_insert_def KeyPool_empty_def KeyPool_pop_def in_bounds_def in_int_def
      INT_MIN_def INT_MAX_def)

lemma KeyArray_hasKey_in_range:
  assumes "in_int (lastKey s + offset s)" and "in_int (key - offset s)"
    and "lastKey s < int (length (valid s))"
  shows "\<exists>b. KeyArray_hasKey s key = Return b s \<and>
           (b \<longleftrightarrow> offset s \<le> key \<and> key \<le> offset s + lastKey s \<and> valid s ! nat (key - offset s))"
  using assms
  by (auto simp: KeyArray_hasKey_def KeyArrayBase_hasKey_def in_bounds_def)

subsection \<open>Pairs across a switch\<close>

text \<open>
  Claim C5 fails on the code, by the guard \<^verbatim>\<open>copyIndex == offset\<close> of \<^verbatim>\<open>enableDynamicResizing\<close>,
  which compares a physical index with the offset although its comment reads
  \<^verbatim>\<open>Start preparing new storage only if copy hasn't started yet\<close>.  On a store whose migration
  \<^verbatim>\<open>disableDynamicResizing(false)\<close> has paused after one step, an insert is not mirrored into
  the shadow, and enabling again keeps that stale shadow, the cursor being 1: after enabling
  and inserting 20 and 30 the store switches, and \<^verbatim>\<open>at(0)\<close>, which returned 10 before the
  switching insert, throws afterwards.  On a fresh store with offset 5 the guard is false, the
  shadow stays empty, and the first insert after enabling writes outside it.
\<close>

theorem switch_loses_pair:
  "run_from (KeyArray_limit 2 [])
     [EnableDynamicResizing, ContinueCopyStep, DisableDynamicResizing False, Insert 10,
      EnableDynamicResizing, Insert 20, At 0, Insert 30, At 0] =
   Some ([Inr Unit, Inr Unit, Inr Unit, Inr (Key 0), Inr Unit, Inr (Key 1),
          Inr (Val 10), Inr (Key 2), Inl KeyNotFound],
         \<lparr>lastKey = 3, elementCount = 3, data = [0, 20, 30, 0 :: int],
          valid = [False, True, True, False],
          kpool = \<lparr>nextKey = 3, maxKey = 3, pool = []\<rparr>, offset = 0, name = [],
          resizingEnabled = True, copyInProgress = True, copyIndex = 1,
          newData = [0, 0, 30, 0, 0, 0, 0, 0],
          newValid = [False, False, True, False, False, False, False, False],
          newPool = \<lparr>nextKey = 4, maxKey = 7, pool = []\<rparr>, queueEnabled = False,
          overflowQueue = []\<rparr>) \<and>
   state_after (KeyArray_range 5 10 []) [EnableDynamicResizing] =
     Some \<lparr>lastKey = 4, elementCount = 0, data = [0, 0, 0, 0, 0 :: int],
          valid = [False, False, False, False, False],
          kpool = \<lparr>nextKey = 0, maxKey = 4, pool = []\<rparr>, offset = 5, name = [],
          resizingEnabled = True, copyInProgress = True, copyIndex = 0,
          newData = [], newValid = [],
          newPool = \<lparr>nextKey = 0, maxKey = 99, pool = []\<rparr>, queueEnabled = False,
          overflowQueue = []\<rparr> \<and>
   map_option (\<lambda>s. KeyArray_insert s (1::int))
     (state_after (KeyArray_range 5 10 []) [EnableDynamicResizing]) = Some Undefined"
  by code_simp

subsection \<open>\<open>hasKey\<close> on a loaded store\<close>

text \<open>
  Claim C10 fails on the code.  \<^verbatim>\<open>KeyArray::hasKey\<close> tests \<^verbatim>\<open>key > this->lastKey + offset\<close>, a sum
  of two \<^verbatim>\<open>int\<close>s.  \<^verbatim>\<open>loadFromFile\<close> takes offset and lastKey from the file as they are: after
  loading a snapshot with offset 2147483647, lastKey 1 and the entry \<open>2147483647 5\<close>, the value
  5 is in slot 0, which is valid, under the key 2147483647.  For that key the first test of
  \<^verbatim>\<open>hasKey\<close> is false, and the sum of the second test leaves the range of \<^verbatim>\<open>int\<close>: the call has
  undefined behaviour.  A key below the offset is answered by the first test.
\<close>

theorem hasKey_overflows_after_load:
  "load_into (state_after (KeyArray_limit 2 []) [])
     (Some ''version: 2.0\<newline>name: x\<newline>offset: 2147483647\<newline>lastKey: 1\<newline>dynamicResizing: false\<newline>queueEnabled: false\<newline>queueSize: 0\<newline>entries:\<newline>2147483647 5\<newline>queueEntries:\<newline>'') =
     Return ()
       \<lparr>lastKey = 1, elementCount = 1, data = [5, 0], valid = [True, False],
        kpool = \<lparr>nextKey = 1, maxKey = 2147483647, pool = []\<rparr>, offset = 2147483647,
        name = ''x'', resizingEnabled = False, copyInProgress = False, copyIndex = 0,
        newData = [], newValid = [],
        newPool = \<lparr>nextKey = 0, maxKey = 99, pool = []\<rparr>, queueEnabled = False,
        overflowQueue = []\<rparr> \<and>
   in_int 2147483647 \<and>
   KeyArrayBase_hasKey
       (\<lparr>lastKey = 1, elementCount = 1, data = [5, 0 :: int], valid = [True, False],
        kpool = \<lparr>nextKey = 1, maxKey = 2147483647, pool = []\<rparr>, offset = 2147483647,
        name = ''x'', resizingEnabled = False, copyInProgress = False, copyIndex = 0,
        newData = [], newValid = [],
        newPool = \<lparr>nextKey = 0, maxKey = 99, pool = []\<rparr>, queueEnabled = False,
        overflowQueue = []\<rparr> :: int KeyArray) (2147483647 - 2147483647) =
     Return True
       (\<lparr>lastKey = 1, elementCount = 1, data = [5, 0 :: int], valid = [True, False],
        kpool = \<lparr>nextKey = 1, maxKey = 2147483647, pool = []\<rparr>, offset = 2147483647,
        name = ''x'', resizingEnabled = False, copyInProgress = False, copyIndex = 0,
        newData = [], newValid = [],
        newPool = \<lparr>nextKey = 0, maxKey = 99, pool = []\<rparr>, queueEnabled = False,
        overflowQueue = []\<rparr> :: int KeyArray) \<and>
   KeyArray_hasKey
       \<lparr>lastKey = 1, elementCount = 1, data = [5, 0 :: int], valid = [True, False],
        kpool = \<lparr>nextKey = 1, maxKey = 2147483647, pool = []\<rparr>, offset = 2147483647,
        name = ''x'', resizingEnabled = False, copyInProgress = False, copyIndex = 0,
        newData = [], newValid = [],
        newPool = \<lparr>nextKey = 0, maxKey = 99, pool = []\<rparr>, queueEnabled = False,
        overflowQueue = []\<rparr> 2147483647 = Undefined \<and>
   KeyArray_hasKey
       \<lparr>lastKey = 1, elementCount = 1, data = [5, 0 :: int], valid = [True, False],
        kpool = \<lparr>nextKey = 1, maxKey = 2147483647, pool = []\<rparr>, offset = 2147483647,
        name = ''x'', resizingEnabled = False, copyInProgress = False, copyIndex = 0,
        newData = [], newValid = [],
        newPool = \<lparr>nextKey = 0, maxKey = 99, pool = []\<rparr>, queueEnabled = False,
        overflowQueue = []\<rparr> 7 =
     Return False
       \<lparr>lastKey = 1, elementCount = 1, data = [5, 0 :: int], valid = [True, False],
        kpool = \<lparr>nextKey = 1, maxKey = 2147483647, pool = []\<rparr>, offset = 2147483647,
        name = ''x'', resizingEnabled = False, copyInProgress = False, copyIndex = 0,
        newData = [], newValid = [],
        newPool = \<lparr>nextKey = 0, maxKey = 99, pool = []\<rparr>, queueEnabled = False,
        overflowQueue = []\<rparr>"
  by code_simp

end
